theory Spec2Isabelle
  imports Main "HOL-Library.Sublist"
begin

section \<open>Python text primitives used by \<^verbatim>\<open>dotmgr/manager.py\<close>\<close>

text \<open>
  A Python \<^verbatim>\<open>str\<close> is modelled as a \<^typ>\<open>string\<close>; each \<^typ>\<open>char\<close> stands for one
  code point in the range U+0000..U+00FF. The whitespace characters of that range, as
  \<^verbatim>\<open>str.isspace\<close>, \<^verbatim>\<open>str.split()\<close> and the regular expression class \<^verbatim>\<open>\s\<close> see them, are
  TAB, LF, VT, FF, CR, FS, GS, RS, US, SPACE, NEL and NBSP.
\<close>

definition isspace :: "char \<Rightarrow> bool" where
  "isspace c \<longleftrightarrow>
     c = CHR 0x09 \<or> c = CHR 0x0A \<or> c = CHR 0x0B \<or> c = CHR 0x0C \<or> c = CHR 0x0D \<or>
     c = CHR 0x1C \<or> c = CHR 0x1D \<or> c = CHR 0x1E \<or> c = CHR 0x1F \<or> c = CHR 0x20 \<or>
     c = CHR 0x85 \<or> c = CHR 0xA0"

text \<open>
  The maximal runs of non-whitespace characters of a string, left to right. This is both
  \<^verbatim>\<open>line.split()\<close> and \<^verbatim>\<open>findall(r'\S+', line)\<close>. The first argument is the run being read.
\<close>

fun runs :: "string \<Rightarrow> string \<Rightarrow> string list" where
  "runs acc [] = (if acc = [] then [] else [acc])"
| "runs acc (c # cs) =
     (if isspace c then (if acc = [] then runs [] cs else acc # runs [] cs)
      else runs (acc @ [c]) cs)"

definition str_split :: "string \<Rightarrow> string list" where
  "str_split line = runs [] line"

definition findall_nonspace :: "string \<Rightarrow> string list" where
  "findall_nonspace line = runs [] line"

text \<open>\<^verbatim>\<open>sep.join(xs)\<close>.\<close>

fun str_join :: "string \<Rightarrow> string list \<Rightarrow> string" where
  "str_join sep [] = []"
| "str_join sep [x] = x"
| "str_join sep (x # y # ys) = x @ sep @ str_join sep (y # ys)"

text \<open>\<^verbatim>\<open>s.find(sub)\<close>: the index of the leftmost occurrence, \<^term>\<open>None\<close> for Python's -1.\<close>

fun str_find :: "string \<Rightarrow> string \<Rightarrow> nat option" where
  "str_find sub [] = (if sub = [] then Some 0 else None)"
| "str_find sub (c # cs) =
     (if prefix sub (c # cs) then Some 0 else map_option Suc (str_find sub cs))"

text \<open>
  \<^verbatim>\<open>s.split(sep)\<close> for a non-empty separator: cut at the leftmost occurrences, which do
  not overlap. Python raises \<^verbatim>\<open>ValueError\<close> for the empty separator; the program only ever
  passes a comment sequence, which is a match of \<^verbatim>\<open>\S+\<close> and so never empty (lemma
  \<open>identify_comment_sequence_nonempty\<close> below); the model returns the unsplit string there.
\<close>

function str_split_sep :: "string \<Rightarrow> string \<Rightarrow> string list" where
  "str_split_sep sep s =
     (if sep = [] then [s]
      else case str_find sep s of
             None \<Rightarrow> [s]
           | Some i \<Rightarrow> take i s # str_split_sep sep (drop (i + length sep) s))"
  by pat_completeness auto
termination
proof (relation "measure (\<lambda>(sep, s). length s)")
  show "wf (measure (\<lambda>(sep, s). length s))" by simp
next
  fix sep s :: string and i
  assume ne: "sep \<noteq> []" and found: "str_find sep s = Some i"
  have bound: "str_find sep t = Some j \<Longrightarrow> j + length sep \<le> length t" for t j
  proof (induction t arbitrary: j)
    case Nil
    then show ?case by (simp split: if_splits)
  next
    case (Cons c cs)
    show ?case
    proof (cases "prefix sep (c # cs)")
      case True
      with Cons.prems have "j = 0" by simp
      with prefix_length_le [OF True] show ?thesis by simp
    next
      case False
      with Cons.prems obtain k where k: "str_find sep cs = Some k" "j = Suc k" by auto
      from Cons.IH [OF k(1)] k(2) show ?thesis by simp
    qed
  qed
  from bound [OF found] ne
  show "((sep, drop (i + length sep) s), (sep, s)) \<in> measure (\<lambda>(sep, s). length s)"
    by (cases sep) auto
qed

declare str_split_sep.simps [simp del]

text \<open>
  \<^verbatim>\<open>readlines()\<close> of a file opened in text mode with the default \<^verbatim>\<open>newline=None\<close>: the
  line endings CR LF and CR are read as LF, and the text is cut after every LF, each
  line keeping its LF.
\<close>

fun universal_newlines :: "string \<Rightarrow> string" where
  "universal_newlines [] = []"
| "universal_newlines [c] = [if c = CHR 0x0D then CHR 0x0A else c]"
| "universal_newlines (c # d # cs) =
     (if c = CHR 0x0D \<and> d = CHR 0x0A then CHR 0x0A # universal_newlines cs
      else if c = CHR 0x0D then CHR 0x0A # universal_newlines (d # cs)
      else c # universal_newlines (d # cs))"

fun keepends :: "string \<Rightarrow> string \<Rightarrow> string list" where
  "keepends acc [] = (if acc = [] then [] else [acc])"
| "keepends acc (c # cs) =
     (if c = CHR 0x0A then (acc @ [c]) # keepends [] cs else keepends (acc @ [c]) cs)"

definition readlines :: "string \<Rightarrow> string list" where
  "readlines text = keepends [] (universal_newlines text)"

section \<open>Exceptions\<close>

datatype exn =
    SystemExit
  | FileNotFoundError
  | NotADirectoryError
  | IsADirectoryError
  | IndexError
  | OtherError string

section \<open>Comment-sequence detection\<close>

text \<open>
  \<^verbatim>\<open>Manager._identify_comment_sequence\<close>. The result pairs the returned sequence, or the
  exception raised by \<^verbatim>\<open>exit()\<close>, with the messages printed.
\<close>

definition identify_comment_sequence :: "bool \<Rightarrow> string \<Rightarrow> (exn + string) \<times> string list" where
  "identify_comment_sequence verbose line =
     (case findall_nonspace line of
        [] \<Rightarrow> (Inl SystemExit, [''Could not identify a comment character!''])
      | seq # _ \<Rightarrow>
          (Inr seq,
           if verbose then [''Identified comment character sequence: '' @ seq] else []))"

section \<open>The conditional-block filters\<close>

text \<open>
  \<^verbatim>\<open>[tag for tag in self._tags if tag in section_tags]\<close>, read as a truth value.
\<close>

definition any_tag_in :: "string list \<Rightarrow> string list \<Rightarrow> bool" where
  "any_tag_in tags section_tags \<longleftrightarrow> filter (\<lambda>tag. tag \<in> set section_tags) tags \<noteq> []"

definition has_only :: "string \<Rightarrow> string \<Rightarrow> bool" where
  "has_only cseq line \<longleftrightarrow> sublist (cseq @ cseq @ ''only'') line"

definition has_not :: "string \<Rightarrow> string \<Rightarrow> bool" where
  "has_not cseq line \<longleftrightarrow> sublist (cseq @ cseq @ ''not'') line"

definition has_end :: "string \<Rightarrow> string \<Rightarrow> bool" where
  "has_end cseq line \<longleftrightarrow> sublist (cseq @ cseq @ ''end'') line"

definition section_tags_of :: "string \<Rightarrow> string list" where
  "section_tags_of line = drop 1 (str_split line)"

definition found_only_msg :: "string \<Rightarrow> string" where
  "found_only_msg line = ''Found section only for '' @ str_join '', '' (section_tags_of line)"

definition found_not_msg :: "string \<Rightarrow> string" where
  "found_not_msg line = ''Found section not for '' @ str_join '', '' (section_tags_of line)"

text \<open>
  One iteration of the loop of \<^verbatim>\<open>Manager.specialize.filter_and_write\<close>: from the flag
  \<^verbatim>\<open>comment_out\<close> and the line to the new flag, the text written to the stage file and
  the messages printed. The two early results are the two \<^verbatim>\<open>continue\<close> statements.
\<close>

definition specialize_step ::
  "bool \<Rightarrow> string list \<Rightarrow> string \<Rightarrow> bool \<Rightarrow> string \<Rightarrow> bool \<times> string \<times> string list" where
  "specialize_step verbose tags cseq comment_out line =
     (let msgs1 = (if has_only cseq line \<and> verbose then [found_only_msg line] else [])
      in if has_only cseq line \<and> \<not> any_tag_in tags (section_tags_of line)
         then (True, line, msgs1)
         else
           let comment_out1 = (if has_only cseq line then False else comment_out);
               msgs2 = msgs1 @ (if has_not cseq line \<and> verbose then [found_not_msg line] else [])
           in if has_not cseq line \<and> any_tag_in tags (section_tags_of line)
              then (True, line, msgs2)
              else
                let comment_out2 = (if has_not cseq line then False else comment_out1);
                    comment_out3 = (if has_end cseq line then False else comment_out2)
                in (comment_out3, if comment_out3 then cseq @ line else line, msgs2))"

text \<open>
  One iteration of the loop of \<^verbatim>\<open>Manager.generalize.filter_and_write\<close>. In strip mode the
  line is split at the comment sequence and all slices but the first are joined again.
\<close>

definition strip_line :: "string \<Rightarrow> string \<Rightarrow> string" where
  "strip_line cseq line = str_join cseq (drop 1 (str_split_sep cseq line))"

definition generalize_step ::
  "bool \<Rightarrow> string list \<Rightarrow> string \<Rightarrow> bool \<Rightarrow> string \<Rightarrow> bool \<times> string \<times> string list" where
  "generalize_step verbose tags cseq strip line =
     (let msgs1 = (if has_only cseq line \<and> verbose then [found_only_msg line] else [])
      in if has_only cseq line \<and> \<not> any_tag_in tags (section_tags_of line)
         then (True, line, msgs1)
         else
           let strip1 = (if has_only cseq line then False else strip);
               msgs2 = msgs1 @ (if has_not cseq line \<and> verbose then [found_not_msg line] else [])
           in if has_not cseq line \<and> any_tag_in tags (section_tags_of line)
              then (True, line, msgs2)
              else
                let strip2 = (if has_not cseq line then False else strip1);
                    strip3 = (if has_end cseq line then False else strip2)
                in (strip3, if strip3 then strip_line cseq line else line, msgs2))"

text \<open>
  The \<^verbatim>\<open>for line in content\<close> loop around either step: the flag is threaded through, the
  writes are concatenated in the open file, the messages are printed in order.
\<close>

fun filter_loop ::
  "(bool \<Rightarrow> string \<Rightarrow> bool \<times> string \<times> string list) \<Rightarrow> bool \<Rightarrow> string list \<Rightarrow> string \<times> string list" where
  "filter_loop step flag [] = ([], [])"
| "filter_loop step flag (line # rest) =
     (case step flag line of
        (flag', written, msgs) \<Rightarrow>
          (case filter_loop step flag' rest of
             (written', msgs') \<Rightarrow> (written @ written', msgs @ msgs')))"

text \<open>
  The two \<^verbatim>\<open>filter_and_write\<close> functions. The result is the exception raised or the text
  written to the open file, paired with the messages printed. \<^verbatim>\<open>content[0]\<close> raises
  \<^verbatim>\<open>IndexError\<close> on an empty list; \<^verbatim>\<open>exit()\<close> in the detector happens before any write.
\<close>

definition filter_and_write ::
  "(string \<Rightarrow> bool \<Rightarrow> string \<Rightarrow> bool \<times> string \<times> string list) \<Rightarrow> bool \<Rightarrow> string list
     \<Rightarrow> (exn + string) \<times> string list" where
  "filter_and_write step verbose content =
     (case content of
        [] \<Rightarrow> (Inl IndexError, [])
      | first # _ \<Rightarrow>
          (case identify_comment_sequence verbose first of
             (Inl e, msgs) \<Rightarrow> (Inl e, msgs)
           | (Inr cseq, msgs) \<Rightarrow>
               (case filter_loop (step cseq) False content of
                  (written, msgs') \<Rightarrow> (Inr written, msgs @ msgs'))))"

definition specialize_filter :: "bool \<Rightarrow> string list \<Rightarrow> string list \<Rightarrow> (exn + string) \<times> string list" where
  "specialize_filter verbose tags content =
     filter_and_write (specialize_step verbose tags) verbose content"

definition generalize_filter :: "bool \<Rightarrow> string list \<Rightarrow> string list \<Rightarrow> (exn + string) \<times> string list" where
  "generalize_filter verbose tags content =
     filter_and_write (generalize_step verbose tags) verbose content"

section \<open>Tag resolution\<close>

text \<open>
  The loop of \<^verbatim>\<open>Manager._get_tags\<close> over the lines of the tag configuration file. The
  result pairs the returned tag list (or the \<^verbatim>\<open>IndexError\<close> of \<^verbatim>\<open>line.split(':')[1]\<close>) with
  the messages printed.
\<close>

fun get_tags_scan :: "bool \<Rightarrow> string \<Rightarrow> string list \<Rightarrow> (exn + string list) \<times> string list" where
  "get_tags_scan verbose hostname [] =
     (Inr [[]], [''Warning: No tags found for this machine!''])"
| "get_tags_scan verbose hostname (line # rest) =
     (if prefix (hostname @ '':'') line
      then (case drop 1 (str_split_sep '':'' line) of
              [] \<Rightarrow> (Inl IndexError, [])
            | field # _ \<Rightarrow>
                (Inr (str_split field),
                 if verbose then [''Found tags: '' @ str_join '', '' (str_split field)] else []))
      else get_tags_scan verbose hostname rest)"

section \<open>Paths\<close>

text \<open>\<^verbatim>\<open>os.path.join\<close> with two arguments, \<^verbatim>\<open>os.path.dirname\<close> and \<^verbatim>\<open>str.rstrip('/')\<close> (POSIX).\<close>

definition rstrip_slash :: "string \<Rightarrow> string" where
  "rstrip_slash p = rev (dropWhile (\<lambda>c. c = CHR ''/'') (rev p))"

definition path_join :: "string \<Rightarrow> string \<Rightarrow> string" where
  "path_join a b =
     (if prefix ''/'' b then b
      else if a = [] \<or> suffix ''/'' a then a @ b
      else a @ ''/'' @ b)"

definition dirname :: "string \<Rightarrow> string" where
  "dirname p =
     (let head = rev (dropWhile (\<lambda>c. c \<noteq> CHR ''/'') (rev p))
      in if head \<noteq> [] \<and> filter (\<lambda>c. c \<noteq> CHR ''/'') head \<noteq> [] then rstrip_slash head else head)"

section \<open>The environment of a manager\<close>

text \<open>
  The operating system and the version-control collaborator are not part of the program.
  They are parameters of the model: a type \<^typ>\<open>'w\<close> of worlds (the file system and the
  collaborator's state) and one function for each library call the program makes. A call
  that can raise returns the exception on the left.

  \<^item> \<open>os_read p\<close> is \<^verbatim>\<open>open(p)\<close> followed by reading the whole text;
  \<^item> \<open>os_write p t\<close> is \<^verbatim>\<open>open(p, 'w')\<close>, the writes that make up \<open>t\<close>, and the close;
  \<^item> \<open>os_makedirs d\<close> is \<^verbatim>\<open>makedirs(d, exist_ok=True)\<close>;
  \<^item> \<open>os_move\<close> is \<^verbatim>\<open>shutil.move\<close>, \<open>os_symlink target link\<close> is \<^verbatim>\<open>os.symlink\<close>;
  \<^item> \<open>user_home\<close> is the directory that \<^verbatim>\<open>expanduser\<close> puts for \<^verbatim>\<open>~\<close>, \<open>host_name\<close> is
    the result of \<^verbatim>\<open>gethostname()\<close>.
\<close>

record 'w os_api =
  os_islink :: "string \<Rightarrow> 'w \<Rightarrow> bool"
  os_exists :: "string \<Rightarrow> 'w \<Rightarrow> bool"
  os_remove :: "string \<Rightarrow> 'w \<Rightarrow> exn + 'w"
  os_move :: "string \<Rightarrow> string \<Rightarrow> 'w \<Rightarrow> exn + 'w"
  os_makedirs :: "string \<Rightarrow> 'w \<Rightarrow> exn + 'w"
  os_symlink :: "string \<Rightarrow> string \<Rightarrow> 'w \<Rightarrow> exn + 'w"
  os_read :: "string \<Rightarrow> 'w \<Rightarrow> exn + string"
  os_write :: "string \<Rightarrow> string \<Rightarrow> 'w \<Rightarrow> exn + 'w"
  user_home :: string
  host_name :: string

text \<open>The repository object: its \<^verbatim>\<open>path\<close> property and its three operations.\<close>

record 'w repository =
  repo_root :: string
  repo_add :: "string \<Rightarrow> 'w \<Rightarrow> exn + 'w"
  repo_remove :: "string \<Rightarrow> 'w \<Rightarrow> exn + 'w"
  repo_update :: "string \<Rightarrow> string option \<Rightarrow> 'w \<Rightarrow> exn + 'w"

text \<open>The attributes of \<^verbatim>\<open>Manager\<close>; \<open>tags\<close> is \<^verbatim>\<open>self._tags\<close>.\<close>

record 'w manager =
  dotfile_repository :: "'w repository"
  dotfile_stage_path :: string
  dotfile_tag_config_path :: string
  verbose :: bool
  tags :: "string list"

text \<open>
  The state a method runs in: the world, the lines printed so far (one entry for each
  \<^verbatim>\<open>print\<close>) and the calls made to the repository object so far.
\<close>

datatype vc_call = VcAdd string | VcRemove string | VcUpdate string "string option"

record 'w state =
  world :: 'w
  printed :: "string list"
  vc_calls :: "vc_call list"

definition print :: "string \<Rightarrow> 'w state \<Rightarrow> 'w state" where
  "print msg s = s\<lparr>printed := printed s @ [msg]\<rparr>"

definition print_all :: "string list \<Rightarrow> 'w state \<Rightarrow> 'w state" where
  "print_all msgs s = s\<lparr>printed := printed s @ msgs\<rparr>"

text \<open>
  A library call on the world of a state: the exception, or the state with the new world.
\<close>

definition on_world :: "('w \<Rightarrow> exn + 'w) \<Rightarrow> 'w state \<Rightarrow> exn + 'w state" where
  "on_world f s = (case f (world s) of Inl e \<Rightarrow> Inl e | Inr w \<Rightarrow> Inr (s\<lparr>world := w\<rparr>))"

definition call_repo :: "vc_call \<Rightarrow> ('w \<Rightarrow> exn + 'w) \<Rightarrow> 'w state \<Rightarrow> exn option \<times> 'w state" where
  "call_repo c f s =
     (let s1 = s\<lparr>vc_calls := vc_calls s @ [c]\<rparr>
      in case on_world f s1 of Inl e \<Rightarrow> (Some e, s1) | Inr s2 \<Rightarrow> (None, s2))"

section \<open>The path resolver\<close>

definition home_path :: "'w os_api \<Rightarrow> string \<Rightarrow> string" where
  "home_path os dotfile_name = rstrip_slash (user_home os) @ ''/'' @ dotfile_name"

definition stage_path :: "'w manager \<Rightarrow> string \<Rightarrow> string" where
  "stage_path m dotfile_name = path_join (dotfile_stage_path m) dotfile_name"

definition repo_path :: "'w manager \<Rightarrow> string \<Rightarrow> string" where
  "repo_path m dotfile_name = path_join (repo_root (dotfile_repository m)) dotfile_name"

section \<open>The manager's operations\<close>

text \<open>
  Each method maps a state to the exception it raises, if any (\<^term>\<open>None\<close> is a normal
  return), and the state it leaves. The bulk variants (\<^verbatim>\<open>delete_all\<close>, \<^verbatim>\<open>generalize_all\<close>,
  \<^verbatim>\<open>link_all\<close>, \<^verbatim>\<open>specialize_all\<close>) walk directory trees and are not modelled.
\<close>

definition get_tags :: "'w os_api \<Rightarrow> string \<Rightarrow> bool \<Rightarrow> 'w state \<Rightarrow> (exn + string list) \<times> 'w state" where
  "get_tags os tag_config_path verb s =
     (case os_read os tag_config_path (world s) of
        Inl e \<Rightarrow> (Inl e, s)
      | Inr text \<Rightarrow>
          (case get_tags_scan verb (host_name os) (readlines text) of
             (r, msgs) \<Rightarrow> (r, print_all msgs s)))"

definition link :: "'w os_api \<Rightarrow> 'w manager \<Rightarrow> string \<Rightarrow> 'w state \<Rightarrow> exn option \<times> 'w state" where
  "link os m dotfile_path s =
     (let link_path = home_path os dotfile_path
      in if os_exists os link_path (world s) then (None, s)
         else
           let dest_path = stage_path m dotfile_path;
               s1 = print (''Creating symlink '' @ link_path @ '' -> '' @ dest_path) s
           in case on_world (os_makedirs os (dirname link_path)) s1 of
                Inl e \<Rightarrow> (Some e, s1)
              | Inr s2 \<Rightarrow>
                  (case on_world (os_symlink os dest_path link_path) s2 of
                     Inl e \<Rightarrow> (Some e, s2)
                   | Inr s3 \<Rightarrow> (None, s3)))"

definition not_handled_msg :: "string \<Rightarrow> string" where
  "not_handled_msg dotfile_path =
     ''It seems '' @ dotfile_path @ '' is not handled by dotmgr.\<newline>You can add it with `dotmgr -A ''
       @ dotfile_path @ ''`.''"

definition generalize ::
  "'w os_api \<Rightarrow> 'w manager \<Rightarrow> string \<Rightarrow> bool \<Rightarrow> string option \<Rightarrow> 'w state \<Rightarrow> exn option \<times> 'w state" where
  "generalize os m dotfile_path commit message s =
     (let s1 = print (''Generalizing '' @ dotfile_path) s
      in case os_read os (stage_path m dotfile_path) (world s1) of
           Inl e \<Rightarrow>
             (if e = FileNotFoundError then (None, print (not_handled_msg dotfile_path) s1)
              else (Some e, s1))
         | Inr text \<Rightarrow>
             (let specific_content = readlines text
              in if specific_content = [] then (None, s1)
                 else
                   case on_world (os_makedirs os (repo_path m (dirname dotfile_path))) s1 of
                     Inl e \<Rightarrow> (Some e, s1)
                   | Inr s2 \<Rightarrow>
                       (case generalize_filter (verbose m) (tags m) specific_content of
                          (Inl e, msgs) \<Rightarrow>
                            (case on_world (os_write os (repo_path m dotfile_path) []) s2 of
                               Inl e' \<Rightarrow> (Some e', s2)
                             | Inr s3 \<Rightarrow> (Some e, print_all msgs s3))
                        | (Inr written, msgs) \<Rightarrow>
                            (case on_world (os_write os (repo_path m dotfile_path) written) s2 of
                               Inl e' \<Rightarrow> (Some e', s2)
                             | Inr s3 \<Rightarrow>
                                 (let s4 = print_all msgs s3
                                  in if commit
                                     then call_repo (VcUpdate dotfile_path message)
                                            (repo_update (dotfile_repository m) dotfile_path message) s4
                                     else (None, s4))))))"

definition specialize ::
  "'w os_api \<Rightarrow> 'w manager \<Rightarrow> string \<Rightarrow> bool \<Rightarrow> 'w state \<Rightarrow> exn option \<times> 'w state" where
  "specialize os m dotfile_path link_flag s =
     (let s1 = print (''Specializing '' @ dotfile_path) s
      in case os_read os (repo_path m dotfile_path) (world s1) of
           Inl e \<Rightarrow> (Some e, s1)
         | Inr text \<Rightarrow>
             (let generic_content = readlines text
              in if generic_content = [] then (None, s1)
                 else
                   case on_world (os_makedirs os (stage_path m (dirname dotfile_path))) s1 of
                     Inl e \<Rightarrow> (Some e, s1)
                   | Inr s2 \<Rightarrow>
                       (case specialize_filter (verbose m) (tags m) generic_content of
                          (Inl e, msgs) \<Rightarrow>
                            (case on_world (os_write os (stage_path m dotfile_path) []) s2 of
                               Inl e' \<Rightarrow> (Some e', s2)
                             | Inr s3 \<Rightarrow> (Some e, print_all msgs s3))
                        | (Inr written, msgs) \<Rightarrow>
                            (case on_world (os_write os (stage_path m dotfile_path) written) s2 of
                               Inl e' \<Rightarrow> (Some e', s2)
                             | Inr s3 \<Rightarrow>
                                 (let s4 = print_all msgs s3
                                  in if link_flag then link os m dotfile_path s4 else (None, s4))))))"

definition already_managed_msg :: "string \<Rightarrow> string" where
  "already_managed_msg home =
     ''File '' @ home @ '' is a symlink. It seems it is already managed. '' @ [CHR 0x5C] @ ''o/''"

definition add :: "'w os_api \<Rightarrow> 'w manager \<Rightarrow> string \<Rightarrow> bool \<Rightarrow> 'w state \<Rightarrow> exn option \<times> 'w state" where
  "add os m dotfile_path commit s =
     (let home = home_path os dotfile_path
      in if os_islink os home (world s)
         then (Some SystemExit, if verbose m then print (already_managed_msg home) s else s)
         else
           let stage = stage_path m dotfile_path;
               s1 = print (''Moving dotfile   '' @ home @ '' => '' @ stage) s
           in case on_world (os_move os home stage) s1 of
                Inl e \<Rightarrow> (Some e, s1)
              | Inr s2 \<Rightarrow>
                  (case link os m dotfile_path s2 of
                     (Some e, s3) \<Rightarrow> (Some e, s3)
                   | (None, s3) \<Rightarrow>
                       (case generalize os m dotfile_path False None s3 of
                          (Some e, s4) \<Rightarrow> (Some e, s4)
                        | (None, s4) \<Rightarrow>
                            (if commit
                             then call_repo (VcAdd dotfile_path)
                                    (repo_add (dotfile_repository m) dotfile_path) s4
                             else (None, s4)))))"



text \<open>\<^verbatim>\<open>Manager.__init__\<close>: the attributes are stored and the tags are resolved once.\<close>

definition new_manager ::
  "'w os_api \<Rightarrow> 'w repository \<Rightarrow> string \<Rightarrow> string \<Rightarrow> bool \<Rightarrow> 'w state \<Rightarrow> (exn + 'w manager) \<times> 'w state" where
  "new_manager os repository stage_root tag_config_path verb s =
     (case get_tags os tag_config_path verb s of
        (Inl e, s1) \<Rightarrow> (Inl e, s1)
      | (Inr ts, s1) \<Rightarrow>
          (Inr \<lparr>dotfile_repository = repository, dotfile_stage_path = stage_root,
                dotfile_tag_config_path = tag_config_path, verbose = verb, tags = ts\<rparr>, s1))"

section \<open>A file system to run the operations on\<close>

text \<open>
  A world for concrete runs, after path resolution on Linux. The tree maps the names on
  the way from the root to an entry to that entry: a regular file with its text, a
  symbolic link with its target, or a directory; the root itself is a directory. An entry
  counts only if every name above it is a directory, since resolution never gets past
  anything else. Every access is permitted, names and paths may have any length, and the
  working directory of the process is the root.
\<close>

datatype node = File string | Link string | Dir

type_synonym fs = "string list \<rightharpoonup> node"

text \<open>
  The names of a path: the pieces between slashes, empty pieces dropped. A path that ends
  with a slash after a name must lead to a directory, as if it ended with \<^verbatim>\<open>/.\<close>.
\<close>

fun names :: "string \<Rightarrow> string \<Rightarrow> string list" where
  "names acc [] = (if acc = [] then [] else [acc])"
| "names acc (c # cs) =
     (if c = CHR ''/'' then (if acc = [] then names [] cs else acc # names [] cs)
      else names (acc @ [c]) cs)"

definition components :: "string \<Rightarrow> string list" where
  "components p =
     names [] p @ (if p \<noteq> [] \<and> last p = CHR ''/'' \<and> names [] p \<noteq> [] then [''.''] else [])"

definition entry :: "fs \<Rightarrow> string list \<Rightarrow> node option" where
  "entry w q = (if q = [] then Some Dir else w q)"

text \<open>
  The walk along the names still to do, from the directory reached so far. A name that is
  missing or that is no directory stops the walk with \<^verbatim>\<open>ENOENT\<close> or \<^verbatim>\<open>ENOTDIR\<close> unless it is
  the last one; a symbolic link is followed (the last name only on request), relative to
  the directory that holds it, and at most 40 links are followed in one resolution. The
  result is the place of the last name, which need not exist.
\<close>

fun walk :: "nat \<Rightarrow> fs \<Rightarrow> bool \<Rightarrow> string list \<Rightarrow> string list \<Rightarrow> exn + string list" where
  "walk links w follow cur [] = Inr cur"
| "walk links w follow cur (c # rest) =
     (if c = ''.'' then walk links w follow cur rest
      else if c = ''..'' then walk links w follow (butlast cur) rest
      else case w (cur @ [c]) of
             None \<Rightarrow> if rest = [] then Inr (cur @ [c]) else Inl FileNotFoundError
           | Some Dir \<Rightarrow> walk links w follow (cur @ [c]) rest
           | Some (File _) \<Rightarrow> if rest = [] then Inr (cur @ [c]) else Inl NotADirectoryError
           | Some (Link t) \<Rightarrow>
               if rest = [] \<and> \<not> follow then Inr (cur @ [c])
               else if links = 0 then Inl (OtherError ''ELOOP'')
               else if t = [] then Inl FileNotFoundError
               else walk (links - 1) w follow (if prefix ''/'' t then [] else cur)
                      (components t @ rest))"

definition resolve :: "fs \<Rightarrow> bool \<Rightarrow> string \<Rightarrow> exn + string list" where
  "resolve w follow p =
     (if p = [] then Inl FileNotFoundError else walk 40 w follow [] (components p))"

text \<open>
  \<^verbatim>\<open>os.path.islink\<close> and \<^verbatim>\<open>os.path.exists\<close> (\<^verbatim>\<open>lstat\<close> and \<^verbatim>\<open>stat\<close>, false on any error),
  \<^verbatim>\<open>os.remove\<close> (\<^verbatim>\<open>unlink\<close>) and \<^verbatim>\<open>open(p)\<close> with the read of the whole text.
\<close>

definition fs_islink :: "string \<Rightarrow> fs \<Rightarrow> bool" where
  "fs_islink p w =
     (case resolve w False p of
        Inl _ \<Rightarrow> False
      | Inr q \<Rightarrow> (case entry w q of Some (Link _) \<Rightarrow> True | _ \<Rightarrow> False))"

definition fs_exists :: "string \<Rightarrow> fs \<Rightarrow> bool" where
  "fs_exists p w =
     (case resolve w True p of Inl _ \<Rightarrow> False | Inr q \<Rightarrow> entry w q \<noteq> None)"

definition fs_remove :: "string \<Rightarrow> fs \<Rightarrow> exn + fs" where
  "fs_remove p w =
     (case resolve w False p of
        Inl e \<Rightarrow> Inl e
      | Inr q \<Rightarrow>
          (case entry w q of
             None \<Rightarrow> Inl FileNotFoundError
           | Some Dir \<Rightarrow> Inl IsADirectoryError
           | Some _ \<Rightarrow> Inr (w(q := None))))"

definition fs_read :: "string \<Rightarrow> fs \<Rightarrow> exn + string" where
  "fs_read p w =
     (case resolve w True p of
        Inl e \<Rightarrow> Inl e
      | Inr q \<Rightarrow>
          (case entry w q of
             None \<Rightarrow> Inl FileNotFoundError
           | Some Dir \<Rightarrow> Inl IsADirectoryError
           | Some (File t) \<Rightarrow> Inr t
           | Some (Link _) \<Rightarrow> Inl (OtherError ''ELOOP'')))"

text \<open>
  The four calls above are all that the runs in this theory reach. Of the calls that
  build up the tree (\<^verbatim>\<open>shutil.move\<close>, \<^verbatim>\<open>makedirs\<close>, \<^verbatim>\<open>os.symlink\<close>, \<^verbatim>\<open>open(p, 'w')\<close>) nothing is
  said: they are left unspecified.
\<close>

definition fs_api :: "string \<Rightarrow> string \<Rightarrow> fs os_api" where
  "fs_api home host =
     \<lparr>os_islink = fs_islink,
      os_exists = fs_exists,
      os_remove = fs_remove,
      os_move = undefined,
      os_makedirs = undefined,
      os_symlink = undefined,
      os_read = fs_read,
      os_write = undefined,
      user_home = home,
      host_name = host\<rparr>"

text \<open>A repository object whose operations leave the world alone and never raise.\<close>

definition quiet_repo :: "string \<Rightarrow> fs repository" where
  "quiet_repo root =
     \<lparr>repo_root = root, repo_add = (\<lambda>p w. Inr w), repo_remove = (\<lambda>p w. Inr w),
      repo_update = (\<lambda>p msg w. Inr w)\<rparr>"

definition sample_manager :: "bool \<Rightarrow> string list \<Rightarrow> fs manager" where
  "sample_manager verb ts =
     \<lparr>dotfile_repository = quiet_repo ''/repo'', dotfile_stage_path = ''/repo/stage'',
      dotfile_tag_config_path = ''/repo/.dotmgr'', verbose = verb, tags = ts\<rparr>"

definition start :: "fs \<Rightarrow> fs state" where
  "start w = \<lparr>world = w, printed = [], vc_calls = []\<rparr>"

text \<open>
  Some trees: the home directory \<^verbatim>\<open>/home/u\<close> and the repository \<^verbatim>\<open>/repo\<close> with its stage
  \<^verbatim>\<open>/repo/stage\<close>, all empty; the same with a file in the repository; with regular files
  named \<^verbatim>\<open>a\<close> in the home directory and on the stage; with a symbolic link in the home
  directory; with a tag configuration file.
\<close>

definition tree_home :: fs where
  "tree_home =
     [[''home''] \<mapsto> Dir, [''home'', ''u''] \<mapsto> Dir, [''repo''] \<mapsto> Dir, [''repo'', ''stage''] \<mapsto> Dir]"

definition tree_repo_vimrc :: fs where
  "tree_repo_vimrc = tree_home([''repo'', ''.vimrc''] \<mapsto> File ''# x\<newline>'')"

definition tree_file_a :: fs where
  "tree_file_a =
     tree_home([''home'', ''u'', ''a''] \<mapsto> File ''x'', [''repo'', ''stage'', ''a''] \<mapsto> File ''y'')"

definition tree_linked :: fs where
  "tree_linked = tree_home([''home'', ''u'', ''.vimrc''] \<mapsto> Link ''/repo/stage/.vimrc'')"

definition tree_config :: "string \<Rightarrow> fs" where
  "tree_config mapping = tree_home([''repo'', ''.dotmgr''] \<mapsto> File mapping)"

section \<open>Notions used to state the properties\<close>

text \<open>
  The directive line of the dotfile syntax for a keyword and the tags listed after it:
  the doubled comment sequence, the keyword, and the tags, each after one space.
\<close>

definition directive_line :: "string \<Rightarrow> string \<Rightarrow> string list \<Rightarrow> string" where
  "directive_line cseq keyword listed =
     cseq @ cseq @ keyword @ concat (map (\<lambda>t. '' '' @ t) listed) @ ''\<newline>''"



section \<open>The filters as maps from file text to file text\<close>

text \<open>
  What \<^verbatim>\<open>specialize\<close> and \<^verbatim>\<open>generalize\<close> do between reading one file and writing the other:
  the text is read with \<^verbatim>\<open>readlines\<close>, an empty list of lines makes the method return
  before anything is written, and otherwise the filter runs on the lines.
\<close>

datatype outcome = Skipped | Raised exn | Written string

definition specialize_text :: "bool \<Rightarrow> string list \<Rightarrow> string \<Rightarrow> outcome" where
  "specialize_text verb ts text =
     (let generic_content = readlines text
      in if generic_content = [] then Skipped
         else case fst (specialize_filter verb ts generic_content) of
                Inl e \<Rightarrow> Raised e
              | Inr written \<Rightarrow> Written written)"

definition generalize_text :: "bool \<Rightarrow> string list \<Rightarrow> string \<Rightarrow> outcome" where
  "generalize_text verb ts text =
     (let specific_content = readlines text
      in if specific_content = [] then Skipped
         else case fst (generalize_filter verb ts specific_content) of
                Inl e \<Rightarrow> Raised e
              | Inr written \<Rightarrow> Written written)"

text \<open>A line that carries one of the three directive tokens.\<close>

definition directive :: "string \<Rightarrow> string \<Rightarrow> bool" where
  "directive cseq line \<longleftrightarrow> has_only cseq line \<or> has_not cseq line \<or> has_end cseq line"

text \<open>The writes of the loop, one for each line, before they are concatenated in the file.\<close>

fun loop_writes ::
  "(bool \<Rightarrow> string \<Rightarrow> bool \<times> string \<times> string list) \<Rightarrow> bool \<Rightarrow> string list \<Rightarrow> string list" where
  "loop_writes step flag [] = []"
| "loop_writes step flag (line # rest) =
     fst (snd (step flag line)) # loop_writes step (fst (step flag line)) rest"

text \<open>
  The shape of what \<^verbatim>\<open>readlines\<close> returns: no line is empty, no line holds a CR, an LF can
  only be the last character of a line, and every line but the last ends with LF.
\<close>

definition line_ok :: "string \<Rightarrow> bool" where
  "line_ok l \<longleftrightarrow> l \<noteq> [] \<and> CHR 0x0D \<notin> set l \<and> CHR 0x0A \<notin> set (butlast l)"

fun wf_lines :: "string list \<Rightarrow> bool" where
  "wf_lines [] = True"
| "wf_lines [l] = line_ok l"
| "wf_lines (l # l' # ls) = (line_ok l \<and> last l = CHR 0x0A \<and> wf_lines (l' # ls))"

section \<open>Example files\<close>

definition example_repo_text :: string where
  "example_repo_text = ''# comment\<newline>line1\<newline>#only work\<newline>secretwork\<newline>#end\<newline>line2\<newline>''"

definition example_claimed_text :: string where
  "example_claimed_text = ''# comment\<newline>line1\<newline>#only work\<newline>#secretwork\<newline>#end\<newline>line2\<newline>''"

definition example_doubled_text :: string where
  "example_doubled_text = ''# comment\<newline>line1\<newline>##only work\<newline>secretwork\<newline>##end\<newline>line2\<newline>''"

definition example_doubled_stage :: string where
  "example_doubled_stage = ''# comment\<newline>line1\<newline>##only work\<newline>#secretwork\<newline>##end\<newline>line2\<newline>''"

definition note_repo_text :: string where
  "note_repo_text = ''# my shell settings\<newline>##only work\<newline>#note: proxy\<newline>export x\<newline>##end\<newline>''"

definition note_stage_text :: string where
  "note_stage_text = ''# my shell settings\<newline>##only work\<newline>##note: proxy\<newline>#export x\<newline>##end\<newline>''"

section \<open>Properties of the text primitives\<close>

lemma runs_acc:
  "acc \<noteq> [] \<Longrightarrow>
   runs acc s = (acc @ takeWhile (\<lambda>c. \<not> isspace c) s) # runs [] (dropWhile (\<lambda>c. \<not> isspace c) s)"
  by (induction s arbitrary: acc) auto

lemma runs_Nil:
  "runs [] s =
     (case dropWhile isspace s of
        [] \<Rightarrow> []
      | t \<Rightarrow> takeWhile (\<lambda>c. \<not> isspace c) t # runs [] (dropWhile (\<lambda>c. \<not> isspace c) t))"
proof (induction s)
  case Nil
  show ?case by simp
next
  case (Cons c cs)
  show ?case
  proof (cases "isspace c")
    case True
    with Cons show ?thesis by simp
  next
    case False
    then show ?thesis by (simp add: runs_acc)
  qed
qed

lemma dropWhile_isspace_Nil: "dropWhile isspace s = [] \<longleftrightarrow> (\<forall>c\<in>set s. isspace c)"
  by (induction s) auto

lemma identify_comment_sequence_fst:
  "fst (identify_comment_sequence verb line) =
     (if \<forall>c\<in>set line. isspace c then Inl SystemExit
      else Inr (takeWhile (\<lambda>c. \<not> isspace c) (dropWhile isspace line)))"
proof (cases "dropWhile isspace line")
  case Nil
  then have "runs [] line = []" by (subst runs_Nil) (simp only: list.case)
  moreover from Nil have "\<forall>c\<in>set line. isspace c" by (simp add: dropWhile_isspace_Nil)
  ultimately show ?thesis by (simp add: identify_comment_sequence_def findall_nonspace_def)
next
  case (Cons c t)
  then have "runs [] line = takeWhile (\<lambda>c. \<not> isspace c) (c # t) # runs [] (dropWhile (\<lambda>c. \<not> isspace c) (c # t))"
    by (subst runs_Nil) (simp only: list.case)
  moreover from Cons have "\<not> (\<forall>c\<in>set line. isspace c)"
    using dropWhile_isspace_Nil [of line] by simp
  ultimately show ?thesis using Cons by (simp add: identify_comment_sequence_def findall_nonspace_def)
qed

lemma identify_comment_sequence_nonempty:
  assumes "fst (identify_comment_sequence verb line) = Inr cseq"
  shows "cseq \<noteq> [] \<and> (\<forall>c\<in>set cseq. \<not> isspace c)"
proof -
  from assms have ne: "\<not> (\<forall>c\<in>set line. isspace c)"
    and eq: "cseq = takeWhile (\<lambda>c. \<not> isspace c) (dropWhile isspace line)"
    by (auto simp: identify_comment_sequence_fst split: if_splits)
  from ne obtain c t where ct: "dropWhile isspace line = c # t"
    using dropWhile_isspace_Nil [of line] by (cases "dropWhile isspace line") auto
  then have "\<not> isspace c" using hd_dropWhile [of isspace line] by simp
  with ct eq have "cseq \<noteq> []" by simp
  moreover from eq have "\<forall>c\<in>set cseq. \<not> isspace c" using set_takeWhileD by fastforce
  ultimately show ?thesis by simp
qed

lemma str_find_None: "str_find sub s = None \<longleftrightarrow> \<not> sublist sub s"
  by (induction s) (auto simp: sublist_Cons_right)

lemma str_find_Some_prefix: "str_find sub s = Some i \<Longrightarrow> prefix sub (drop i s)"
proof (induction s arbitrary: i)
  case Nil
  then show ?case by (simp split: if_splits)
next
  case (Cons c cs)
  then show ?case by (auto split: if_splits)
qed

lemma str_find_Some_least: "str_find sub s = Some i \<Longrightarrow> j < i \<Longrightarrow> \<not> prefix sub (drop j s)"
proof (induction s arbitrary: i j)
  case Nil
  then show ?case by (simp split: if_splits)
next
  case (Cons c cs)
  show ?case
  proof (cases "prefix sub (c # cs)")
    case True
    with Cons.prems show ?thesis by simp
  next
    case False
    with Cons.prems obtain k where k: "str_find sub cs = Some k" "i = Suc k" by auto
    show ?thesis
    proof (cases j)
      case 0
      with False show ?thesis by simp
    next
      case (Suc j')
      with Cons.prems(2) k(2) have "j' < k" by simp
      from Cons.IH [OF k(1) this] Suc show ?thesis by simp
    qed
  qed
qed

lemma str_find_first:
  assumes "prefix sub (drop i s)" and "i \<le> length s" and "\<forall>j<i. \<not> prefix sub (drop j s)"
  shows "str_find sub s = Some i"
proof -
  from assms(1,2) have "sublist sub s"
    by (metis append_take_drop_id prefix_def sublist_appendI)
  then obtain k where k: "str_find sub s = Some k"
    using str_find_None [of sub s] by (cases "str_find sub s") auto
  have "\<not> k < i" using str_find_Some_prefix [OF k] assms(3) by blast
  moreover have "\<not> i < k" using str_find_Some_least [OF k] assms(1) by blast
  ultimately show ?thesis using k by simp
qed

lemma str_split_sep_nonempty: "str_split_sep sep s \<noteq> []"
  by (subst str_split_sep.simps) (simp split: option.splits)

lemma str_join_Cons: "xs \<noteq> [] \<Longrightarrow> str_join sep (x # xs) = x @ sep @ str_join sep xs"
  by (cases xs) simp_all

lemma str_join_split: "sep \<noteq> [] \<Longrightarrow> str_join sep (str_split_sep sep s) = s"
proof (induction sep s rule: str_split_sep.induct)
  case (1 sep s)
  show ?case
  proof (cases "str_find sep s")
    case None
    with "1.prems" show ?thesis by (subst str_split_sep.simps) simp
  next
    case (Some i)
    from str_find_Some_prefix [OF Some] obtain r where r: "drop i s = sep @ r"
      by (auto simp: prefix_def)
    then have r': "drop (i + length sep) s = r"
      by (metis add.commute append_eq_conv_conj drop_drop)
    have "str_join sep (str_split_sep sep s)
            = take i s @ sep @ str_join sep (str_split_sep sep (drop (i + length sep) s))"
      using "1.prems" Some
      by (subst str_split_sep.simps) (simp add: str_join_Cons str_split_sep_nonempty)
    also have "\<dots> = take i s @ sep @ r"
      using "1.IH" [OF "1.prems" Some] "1.prems" r' by simp
    also have "\<dots> = s" using r by (metis append_take_drop_id)
    finally show ?thesis .
  qed
qed

lemma strip_line_absent: "sep \<noteq> [] \<Longrightarrow> \<not> sublist sep s \<Longrightarrow> strip_line sep s = []"
  unfolding strip_line_def
  by (subst str_split_sep.simps) (simp add: str_find_None [symmetric])

lemma strip_line_found:
  assumes "sep \<noteq> []" and "str_find sep s = Some i"
  shows "strip_line sep s = drop (i + length sep) s"
  unfolding strip_line_def using assms
  by (subst str_split_sep.simps) (simp add: str_join_split)

lemma strip_line_prefixed: "sep \<noteq> [] \<Longrightarrow> strip_line sep (sep @ s) = s"
proof -
  assume ne: "sep \<noteq> []"
  have "str_find sep (sep @ s) = Some 0" using ne by (cases sep) simp_all
  from strip_line_found [OF ne this] show ?thesis by simp
qed

section \<open>Paths and calls of the concrete runs\<close>

lemma paths:
  "home_path (fs_api ''/home/u'' h) q = ''/home/u/'' @ q"
  "\<not> prefix ''/'' q \<Longrightarrow> stage_path (sample_manager v t) q = ''/repo/stage/'' @ q"
  "\<not> prefix ''/'' q \<Longrightarrow> repo_path (sample_manager v t) q = ''/repo/'' @ q"
  by (simp_all add: home_path_def fs_api_def rstrip_slash_def stage_path_def repo_path_def
      sample_manager_def quiet_repo_def path_join_def suffix_to_prefix)

lemma fs_api_simps:
  "os_islink (fs_api h n) = fs_islink" "os_exists (fs_api h n) = fs_exists"
  "os_remove (fs_api h n) = fs_remove" "os_read (fs_api h n) = fs_read"
  "user_home (fs_api h n) = h" "host_name (fs_api h n) = n"
  by (simp_all add: fs_api_def)

section \<open>The end-to-end example (C1)\<close>

text \<open>
  C1, as stated, fails: the comment sequence of the example file is \<^verbatim>\<open>#\<close>, so a directive
  is \<^verbatim>\<open>##only\<close>, and the line \<^verbatim>\<open>#only work\<close> of the example is no directive. With the host
  tag \<^verbatim>\<open>home\<close> the specialize filter does not produce the text of the claim.
\<close>

theorem C1_example_counterexample:
  "fst (specialize_filter False [''home''] (readlines example_repo_text)) \<noteq> Inr example_claimed_text"
  unfolding example_repo_text_def example_claimed_text_def by code_simp

text \<open>
  C1, amended: with the host tag \<^verbatim>\<open>home\<close> the specialize filter writes the example file
  back unchanged, since its directive lines carry a single comment sequence; when the two
  directive lines are written with the doubled comment sequence (\<^verbatim>\<open>##only work\<close>,
  \<^verbatim>\<open>##end\<close>), the filter writes the same text with the line \<^verbatim>\<open>secretwork\<close> prefixed by one
  comment sequence and every other line unchanged.
\<close>

theorem C1_example_amended:
  "fst (specialize_filter verb [''home''] (readlines example_repo_text)) = Inr example_repo_text \<and>
   fst (specialize_filter verb [''home''] (readlines example_doubled_text)) = Inr example_doubled_stage"
proof (cases verb)
  case True
  show ?thesis
    unfolding True example_repo_text_def example_doubled_text_def example_doubled_stage_def
    by code_simp
next
  case False
  show ?thesis
    unfolding False example_repo_text_def example_doubled_text_def example_doubled_stage_def
    by code_simp
qed

theorem C1_example_amended_witness:
  "fst (specialize_filter False [''home''] (readlines example_repo_text)) = Inr example_repo_text \<and>
   fst (specialize_filter False [''home''] (readlines example_doubled_text)) = Inr example_doubled_stage"
  using C1_example_amended [of False] by simp

section \<open>Comment-sequence detection (C6)\<close>

text \<open>
  C6: on a line with at least one non-whitespace character the detector returns the first
  maximal run of non-whitespace characters, that is, what is left of the line after its
  leading whitespace, up to the next whitespace character; on a line of whitespace only
  (the empty line included) it returns nothing and leaves the process by \<^verbatim>\<open>exit()\<close>.
\<close>

theorem C6_detector:
  "fst (identify_comment_sequence verb line) =
     (if \<forall>c\<in>set line. isspace c then Inl SystemExit
      else Inr (takeWhile (\<lambda>c. \<not> isspace c) (dropWhile isspace line)))"
  by (rule identify_comment_sequence_fst)

theorem C6_detector_witness:
  "fst (identify_comment_sequence False ''  # comment\<newline>'') = Inr ''#'' \<and>
   fst (identify_comment_sequence False '' \<newline>'') = Inl SystemExit"
proof -
  have a: "\<not> (\<forall>c\<in>set ''  # comment\<newline>''. isspace c)" by (simp add: isspace_def)
  have b: "\<forall>c\<in>set '' \<newline>''. isspace c" by (simp add: isspace_def)
  show ?thesis
    using C6_detector [of False "''  # comment\<newline>''"] C6_detector [of False "'' \<newline>''"] a b
    by (simp add: isspace_def)
qed

section \<open>Strip mode of the generalize filter (C10)\<close>

text \<open>
  C10: in strip mode of the generalize filter, a line in which the comment sequence does
  not occur is written as the empty string; a line (without directive) in which it occurs
  is written as the text after the first occurrence, so the text before it is dropped too.
\<close>

theorem C10_strip:
  assumes "cseq \<noteq> []"
  shows "(\<not> sublist cseq line \<longrightarrow> generalize_step verb ts cseq True line = (True, [], [])) \<and>
         (\<not> has_only cseq line \<and> \<not> has_not cseq line \<and> \<not> has_end cseq line \<and>
          line = before @ cseq @ rest \<and> (\<forall>j<length before. \<not> prefix cseq (drop j line))
            \<longrightarrow> generalize_step verb ts cseq True line = (True, rest, []))"
proof (intro conjI impI)
  assume absent: "\<not> sublist cseq line"
  have no: "\<not> sublist (cseq @ cseq @ kw) line" for kw
    using absent by (metis sublist_appendI sublist_order.order_trans)
  show "generalize_step verb ts cseq True line = (True, [], [])"
    using no strip_line_absent [OF assms absent]
    by (simp add: generalize_step_def has_only_def has_not_def has_end_def)
next
  assume h: "\<not> has_only cseq line \<and> \<not> has_not cseq line \<and> \<not> has_end cseq line \<and>
          line = before @ cseq @ rest \<and> (\<forall>j<length before. \<not> prefix cseq (drop j line))"
  then have "prefix cseq (drop (length before) line)" by simp
  with h have "str_find cseq line = Some (length before)"
    by (intro str_find_first) auto
  from strip_line_found [OF assms this] h have sl: "strip_line cseq line = rest" by simp
  from h have "\<not> has_only cseq line" "\<not> has_not cseq line" "\<not> has_end cseq line" by blast+
  with sl show "generalize_step verb ts cseq True line = (True, rest, [])"
    by (simp add: generalize_step_def)
qed

theorem C10_strip_witness:
  "generalize_step False [''home''] ''#'' True ''plain text\<newline>'' = (True, [], []) \<and>
   generalize_step False [''home''] ''#'' True ''x = 1 # note\<newline>'' = (True, '' note\<newline>'', [])"
proof -
  have a: "\<not> sublist ''#'' ''plain text\<newline>''" by code_simp
  have b: "\<not> has_only ''#'' ''x = 1 # note\<newline>'' \<and> \<not> has_not ''#'' ''x = 1 # note\<newline>'' \<and>
       \<not> has_end ''#'' ''x = 1 # note\<newline>'' \<and>
       ''x = 1 # note\<newline>'' = ''x = 1 '' @ ''#'' @ '' note\<newline>''" by code_simp
  have c: "\<forall>j<length ''x = 1 ''. \<not> prefix ''#'' (drop j ''x = 1 # note\<newline>'')"
  proof (intro allI impI)
    fix j :: nat assume "j < length ''x = 1 ''"
    then have "j \<in> {0, 1, 2, 3, 4, 5}" by auto
    then show "\<not> prefix ''#'' (drop j ''x = 1 # note\<newline>'')" by auto
  qed
  have ne: "''#'' \<noteq> []" by simp
  from C10_strip [OF ne, of "''plain text\<newline>''" False "[''home'']"] a
  have 1: "generalize_step False [''home''] ''#'' True ''plain text\<newline>'' = (True, [], [])" by blast
  from C10_strip [OF ne, of "''x = 1 # note\<newline>''" False "[''home'']" "''x = 1 ''" "'' note\<newline>''"] b c
  have 2: "generalize_step False [''home''] ''#'' True ''x = 1 # note\<newline>'' = (True, '' note\<newline>'', [])"
    by blast
  from 1 2 show ?thesis by simp
qed

section \<open>The two directives (C4)\<close>

lemma any_tag_in_inter: "any_tag_in ts section \<longleftrightarrow> set ts \<inter> set section \<noteq> {}"
  by (auto simp: any_tag_in_def filter_empty_conv)

lemma runs_nonspace: "\<forall>c\<in>set t. \<not> isspace c \<Longrightarrow> runs acc (t @ s) = runs (acc @ t) s"
  by (induction t arbitrary: acc) simp_all

lemma runs_listed:
  assumes "acc \<noteq> []" and "\<forall>t\<in>set listed. t \<noteq> [] \<and> (\<forall>c\<in>set t. \<not> isspace c)"
  shows "runs acc (concat (map (\<lambda>t. '' '' @ t) listed) @ ''\<newline>'') = acc # listed"
  using assms
proof (induction listed arbitrary: acc)
  case Nil
  then show ?case by (simp add: isspace_def)
next
  case (Cons t listed)
  from Cons.prems have t: "t \<noteq> []" "\<forall>c\<in>set t. \<not> isspace c" by simp_all
  have "runs acc (concat (map (\<lambda>t. '' '' @ t) (t # listed)) @ ''\<newline>'')
          = acc # runs [] (t @ concat (map (\<lambda>t. '' '' @ t) listed) @ ''\<newline>'')"
    using Cons.prems(1) by (simp add: isspace_def)
  also have "runs [] (t @ concat (map (\<lambda>t. '' '' @ t) listed) @ ''\<newline>'')
          = runs t (concat (map (\<lambda>t. '' '' @ t) listed) @ ''\<newline>'')"
    using runs_nonspace [OF t(2), of "[]"] by simp
  also have "\<dots> = t # listed" using Cons.prems(2) t(1) by (intro Cons.IH) simp_all
  finally show ?case .
qed

lemma section_tags_of_directive_line:
  assumes "\<forall>c\<in>set cseq. \<not> isspace c" and "keyword \<noteq> []" and "\<forall>c\<in>set keyword. \<not> isspace c"
    and "\<forall>t\<in>set listed. t \<noteq> [] \<and> (\<forall>c\<in>set t. \<not> isspace c)"
  shows "section_tags_of (directive_line cseq keyword listed) = listed"
proof -
  let ?tok = "cseq @ cseq @ keyword"
  have ns: "\<forall>c\<in>set ?tok. \<not> isspace c" using assms(1,3) by auto
  have ne: "?tok \<noteq> []" using assms(2) by simp
  have "runs [] (?tok @ concat (map (\<lambda>t. '' '' @ t) listed) @ ''\<newline>'')
          = runs ?tok (concat (map (\<lambda>t. '' '' @ t) listed) @ ''\<newline>'')"
    using runs_nonspace [OF ns, of "[]"] by simp
  also have "\<dots> = ?tok # listed" by (rule runs_listed [OF ne assms(4)])
  finally show ?thesis by (simp add: section_tags_of_def str_split_def directive_line_def)
qed

lemma sublist_across_space:
  assumes "sublist k (a @ sp # b)" and "sp \<notin> set k"
  shows "sublist k a \<or> sublist k b"
proof -
  from assms(1) consider "sublist k a" | "sublist k (sp # b)"
    | k1 k2 where "k = k1 @ k2" "suffix k1 a" "prefix k2 (sp # b)"
    by (auto simp: sublist_append)
  then show ?thesis
  proof cases
    case 1
    then show ?thesis by simp
  next
    case 2
    then have "prefix k (sp # b) \<or> sublist k b" by (simp add: sublist_Cons_right)
    moreover have "prefix k (sp # b) \<Longrightarrow> k = []" using assms(2) by (cases k) auto
    ultimately show ?thesis by auto
  next
    case 3
    have "k2 = []" using 3(1,3) assms(2) by (cases k2) auto
    with 3(1,2) show ?thesis by auto
  qed
qed

lemma sublist_listed:
  assumes "sublist k (concat (map (\<lambda>t. '' '' @ t) listed) @ ''\<newline>'')"
    and "k \<noteq> []" and "\<forall>c\<in>set k. \<not> isspace c"
  shows "\<exists>t\<in>set listed. sublist k t"
  using assms(1)
proof (induction listed)
  case Nil
  then have "prefix k ''\<newline>'' \<or> sublist k []" by (simp add: sublist_Cons_right)
  with assms(2,3) show ?case by (cases k) (auto simp: isspace_def)
next
  case (Cons t listed)
  have sp: "CHR '' '' \<notin> set k" and lf: "CHR ''\<newline>'' \<notin> set k"
    using assms(3) by (auto simp: isspace_def)
  from Cons.prems have "sublist k ([] @ CHR '' '' # (t @ concat (map (\<lambda>t. '' '' @ t) listed) @ ''\<newline>''))"
    by simp
  from sublist_across_space [OF this sp] assms(2)
  have 1: "sublist k (t @ concat (map (\<lambda>t. '' '' @ t) listed) @ ''\<newline>'')" by auto
  show ?case
  proof (cases listed)
    case Nil
    with 1 have "sublist k (t @ CHR ''\<newline>'' # [])" by simp
    from sublist_across_space [OF this lf] assms(2) show ?thesis by auto
  next
    case (Cons t' rest)
    with 1 have "sublist k (t @ CHR '' '' # (t' @ concat (map (\<lambda>t. '' '' @ t) rest) @ ''\<newline>''))" by simp
    from sublist_across_space [OF this sp]
    have "sublist k t \<or> sublist k (t' @ concat (map (\<lambda>t. '' '' @ t) rest) @ ''\<newline>'')" .
    then show ?thesis
    proof
      assume "sublist k t"
      then show ?thesis by auto
    next
      assume "sublist k (t' @ concat (map (\<lambda>t. '' '' @ t) rest) @ ''\<newline>'')"
      then have "sublist k (concat (map (\<lambda>t. '' '' @ t) listed) @ ''\<newline>'')"
        using Cons by (simp add: sublist_Cons_right)
      from Cons.IH [OF this] show ?thesis by auto
    qed
  qed
qed

lemma sublist_directive_line:
  assumes "sublist k (directive_line cseq keyword listed)"
    and "k \<noteq> []" and "\<forall>c\<in>set k. \<not> isspace c"
  shows "sublist k (cseq @ cseq @ keyword) \<or> (\<exists>t\<in>set listed. sublist k t)"
proof (cases listed)
  case Nil
  have lf: "CHR ''\<newline>'' \<notin> set k" using assms(3) by (auto simp: isspace_def)
  from assms(1) Nil have "sublist k ((cseq @ cseq @ keyword) @ CHR ''\<newline>'' # [])"
    by (simp add: directive_line_def)
  from sublist_across_space [OF this lf] assms(2) show ?thesis by auto
next
  case (Cons t rest)
  have sp: "CHR '' '' \<notin> set k" using assms(3) by (auto simp: isspace_def)
  from assms(1) Cons
  have "sublist k ((cseq @ cseq @ keyword) @ CHR '' '' # (t @ concat (map (\<lambda>t. '' '' @ t) rest) @ ''\<newline>''))"
    by (simp add: directive_line_def)
  from sublist_across_space [OF this sp]
  have "sublist k (cseq @ cseq @ keyword) \<or> sublist k (t @ concat (map (\<lambda>t. '' '' @ t) rest) @ ''\<newline>'')" .
  then show ?thesis
  proof
    assume "sublist k (cseq @ cseq @ keyword)"
    then show ?thesis by simp
  next
    assume "sublist k (t @ concat (map (\<lambda>t. '' '' @ t) rest) @ ''\<newline>'')"
    then have "sublist k (concat (map (\<lambda>t. '' '' @ t) listed) @ ''\<newline>'')"
      using Cons by (simp add: sublist_Cons_right)
    from sublist_listed [OF this assms(2,3)] show ?thesis by simp
  qed
qed

lemma not_token_not_in_only_token: "\<not> sublist (c @ ''not'') (c @ ''only'')"
proof
  assume "sublist (c @ ''not'') (c @ ''only'')"
  then obtain p q where eq: "c @ ''only'' = p @ (c @ ''not'') @ q" by (auto simp: sublist_def)
  then have "length (c @ ''only'') = length (p @ (c @ ''not'') @ q)" by simp
  then have len: "length p + length q = 1" by simp
  show False
  proof (cases q)
    case Nil
    with eq have "last (c @ ''only'') = last (p @ c @ ''not'')" by simp
    then show False by simp
  next
    case (Cons x q')
    with len have "p = []" "q' = []" by simp_all
    with eq Cons show False by simp
  qed
qed

lemma only_token_not_in_not_token: "\<not> sublist (c @ ''only'') (c @ ''not'')"
proof
  assume "sublist (c @ ''only'') (c @ ''not'')"
  then have "length (c @ ''only'') \<le> length (c @ ''not'')" by (rule sublist_length_le)
  then show False by simp
qed

text \<open>
  C4, amended: take a comment sequence without whitespace and a list of tags, each tag
  non-empty, without whitespace and without a directive token inside. For every host tag
  list, the line made of the \<^verbatim>\<open>not\<close> token and these tags puts the specialize filter into
  suppress mode exactly when the line made of the \<^verbatim>\<open>only\<close> token and the same tags does not:
  \<^verbatim>\<open>not\<close> suppresses iff the host tags and the listed tags intersect, \<^verbatim>\<open>only\<close> suppresses iff
  they do not.
\<close>

theorem C4_complement:
  assumes cs: "\<forall>c\<in>set cseq. \<not> isspace c"
    and listed: "\<forall>t\<in>set listed. t \<noteq> [] \<and> (\<forall>c\<in>set t. \<not> isspace c) \<and>
                   \<not> has_only cseq t \<and> \<not> has_not cseq t"
  shows "fst (specialize_step verb ts cseq flag1 (directive_line cseq ''not'' listed))
           = (\<not> fst (specialize_step verb ts cseq flag2 (directive_line cseq ''only'' listed))) \<and>
         fst (specialize_step verb ts cseq flag1 (directive_line cseq ''not'' listed))
           = (set ts \<inter> set listed \<noteq> {}) \<and>
         fst (specialize_step verb ts cseq flag2 (directive_line cseq ''only'' listed))
           = (set ts \<inter> set listed = {})"
proof -
  let ?only = "directive_line cseq ''only'' listed" and ?not = "directive_line cseq ''not'' listed"
  from listed have shape: "\<forall>t\<in>set listed. t \<noteq> [] \<and> (\<forall>c\<in>set t. \<not> isspace c)" by blast
  have tags_only: "section_tags_of ?only = listed"
    by (rule section_tags_of_directive_line [OF cs _ _ shape]) (simp_all add: isspace_def)
  have tags_not: "section_tags_of ?not = listed"
    by (rule section_tags_of_directive_line [OF cs _ _ shape]) (simp_all add: isspace_def)
  have ho: "has_only cseq ?only"
    unfolding has_only_def directive_line_def
    by (metis append.assoc sublist_appendI append_Nil)
  have hn: "has_not cseq ?not"
    unfolding has_not_def directive_line_def
    by (metis append.assoc sublist_appendI append_Nil)
  have ns: "\<forall>c\<in>set (cseq @ cseq @ kw). \<not> isspace c" if "\<forall>c\<in>set kw. \<not> isspace c" for kw
    using cs that by auto
  have nn: "\<not> has_not cseq ?only"
  proof
    assume "has_not cseq ?only"
    then have "sublist (cseq @ cseq @ ''not'') ?only" by (simp add: has_not_def)
    from sublist_directive_line [OF this] ns [of "''not''"]
    have "sublist (cseq @ cseq @ ''not'') (cseq @ cseq @ ''only'') \<or>
          (\<exists>t\<in>set listed. sublist (cseq @ cseq @ ''not'') t)" by (simp add: isspace_def)
    with not_token_not_in_only_token [of "cseq @ cseq"] listed show False
      by (auto simp: has_not_def)
  qed
  have no: "\<not> has_only cseq ?not"
  proof
    assume "has_only cseq ?not"
    then have "sublist (cseq @ cseq @ ''only'') ?not" by (simp add: has_only_def)
    from sublist_directive_line [OF this] ns [of "''only''"]
    have "sublist (cseq @ cseq @ ''only'') (cseq @ cseq @ ''not'') \<or>
          (\<exists>t\<in>set listed. sublist (cseq @ cseq @ ''only'') t)" by (simp add: isspace_def)
    with only_token_not_in_not_token [of "cseq @ cseq"] listed show False
      by (auto simp: has_only_def)
  qed
  show ?thesis
    using ho hn nn no
    by (simp add: specialize_step_def Let_def any_tag_in_inter tags_only tags_not)
qed

theorem C4_complement_witness:
  "fst (specialize_step False [''home''] ''#'' False ''##not work home\<newline>'') = True \<and>
   fst (specialize_step False [''home''] ''#'' False ''##only work home\<newline>'') = False \<and>
   fst (specialize_step False [''desk''] ''#'' False ''##not work home\<newline>'') = False \<and>
   fst (specialize_step False [''desk''] ''#'' False ''##only work home\<newline>'') = True"
proof -
  have cs: "\<forall>c\<in>set ''#''. \<not> isspace c" by (simp add: isspace_def)
  have a: "\<not> has_only ''#'' ''work'' \<and> \<not> has_not ''#'' ''work'' \<and>
           \<not> has_only ''#'' ''home'' \<and> \<not> has_not ''#'' ''home''" by code_simp
  have listed: "\<forall>t\<in>set [''work'', ''home'']. t \<noteq> [] \<and> (\<forall>c\<in>set t. \<not> isspace c) \<and>
                   \<not> has_only ''#'' t \<and> \<not> has_not ''#'' t"
    using a by (simp add: isspace_def)
  have l1: "directive_line ''#'' ''not'' [''work'', ''home''] = ''##not work home\<newline>''"
    by (simp add: directive_line_def)
  have l2: "directive_line ''#'' ''only'' [''work'', ''home''] = ''##only work home\<newline>''"
    by (simp add: directive_line_def)
  from C4_complement [OF cs listed, of False "[''home'']" False False]
       C4_complement [OF cs listed, of False "[''desk'']" False False]
  show ?thesis unfolding l1 l2 by simp
qed

text \<open>
  C4, as stated, fails on a directive line that carries text before the directive token:
  the filter compares the host tags with every token after the first token of the line,
  not with the tags listed after the directive. On \<^verbatim>\<open>if work ##only home\<close> the listed tag
  is \<^verbatim>\<open>home\<close>; for the host tag \<^verbatim>\<open>work\<close> the intersection is empty, and yet the filter does
  not suppress, while on \<^verbatim>\<open>if work ##not home\<close> it does.
\<close>

theorem C4_complement_counterexample:
  "has_only ''#'' ''if work ##only home\<newline>'' \<and>
   set [''work''] \<inter> set [''home''] = {} \<and>
   fst (specialize_step False [''work''] ''#'' False ''if work ##only home\<newline>'') = False \<and>
   has_not ''#'' ''if work ##not home\<newline>'' \<and>
   fst (specialize_step False [''work''] ''#'' False ''if work ##not home\<newline>'') = True"
  by code_simp

section \<open>Generalizing an unmanaged file (C8)\<close>

text \<open>
  C8, amended: when opening the stage file of a path raises \<^verbatim>\<open>FileNotFoundError\<close>,
  \<^verbatim>\<open>generalize\<close> prints its headline and the guidance and returns normally; the world is
  left as it was, so nothing is written to the repository, and no call is made to the
  repository object.
\<close>

theorem C8_generalize_missing_stage:
  assumes "os_read os (stage_path m p) (world s) = Inl FileNotFoundError"
  shows "generalize os m p commit message s =
           (None, s\<lparr>printed := printed s @ [''Generalizing '' @ p, not_handled_msg p]\<rparr>) \<and>
         world (snd (generalize os m p commit message s)) = world s \<and>
         vc_calls (snd (generalize os m p commit message s)) = vc_calls s"
  using assms by (simp add: generalize_def print_def)

theorem C8_generalize_missing_stage_witness:
  "generalize (fs_api ''/home/u'' ''box'') (sample_manager False [''home'']) ''.vimrc'' True None
       (start tree_repo_vimrc)
     = (None, \<lparr>world = tree_repo_vimrc,
               printed = [''Generalizing .vimrc'', not_handled_msg ''.vimrc''], vc_calls = []\<rparr>)"
proof -
  have "os_read (fs_api ''/home/u'' ''box'') (stage_path (sample_manager False [''home'']) ''.vimrc'')
          (world (start tree_repo_vimrc)) = Inl FileNotFoundError"
    by (simp add: paths fs_api_simps fs_read_def resolve_def components_def entry_def start_def
        tree_repo_vimrc_def tree_home_def)
  from C8_generalize_missing_stage [OF this, of True None] show ?thesis
    by (simp add: start_def)
qed

text \<open>
  C8, as stated, fails when the stage file does not exist because a name above it is a
  regular file: \<^verbatim>\<open>open\<close> raises \<^verbatim>\<open>NotADirectoryError\<close>, which the \<^verbatim>\<open>except FileNotFoundError\<close>
  clause does not catch. With a regular file \<^verbatim>\<open>a\<close> on the stage, \<^verbatim>\<open>generalize\<close> of \<^verbatim>\<open>a/b\<close>
  prints its headline and raises.
\<close>

theorem C8_generalize_missing_stage_counterexample:
  "\<not> os_exists (fs_api ''/home/u'' ''box'') (stage_path (sample_manager False [''home'']) ''a/b'') tree_file_a \<and>
   generalize (fs_api ''/home/u'' ''box'') (sample_manager False [''home'']) ''a/b'' False None
       (start tree_file_a)
     = (Some NotADirectoryError,
        \<lparr>world = tree_file_a, printed = [''Generalizing a/b''], vc_calls = []\<rparr>)"
  by (simp add: paths fs_api_simps fs_exists_def fs_read_def resolve_def components_def
      entry_def start_def tree_file_a_def tree_home_def generalize_def print_def)

section \<open>Adding a file that is already managed (C9)\<close>

text \<open>
  C9, as stated, fails in its "prints": the message is printed only when the manager is
  verbose. Here the home instance is a symbolic link and the manager is not verbose;
  \<^verbatim>\<open>add\<close> leaves by \<^verbatim>\<open>exit()\<close> and prints nothing.
\<close>

theorem C9_add_symlink_counterexample:
  "os_islink (fs_api ''/home/u'' ''box'') (home_path (fs_api ''/home/u'' ''box'') ''.vimrc'')
     (world (start tree_linked)) \<and>
   add (fs_api ''/home/u'' ''box'') (sample_manager False [''home'']) ''.vimrc'' False
     (start tree_linked)
     = (Some SystemExit, \<lparr>world = tree_linked, printed = [], vc_calls = []\<rparr>)"
  by (simp add: paths fs_api_simps fs_islink_def resolve_def components_def entry_def start_def
      tree_linked_def tree_home_def add_def sample_manager_def)

text \<open>
  C9, amended: when the home instance of a path is already a symbolic link, \<^verbatim>\<open>add\<close> leaves
  by \<^verbatim>\<open>exit()\<close> before it performs any action, and prints its message only if the manager
  is verbose: the world (home, stage and repository) is unchanged, and no call is made to
  the repository object.
\<close>

theorem C9_add_symlink:
  assumes "os_islink os (home_path os p) (world s)"
  shows "add os m p commit s =
           (Some SystemExit,
            s\<lparr>printed := printed s @ (if verbose m then [already_managed_msg (home_path os p)] else [])\<rparr>)"
  using assms by (simp add: add_def print_def)

theorem C9_add_symlink_witness:
  "add (fs_api ''/home/u'' ''box'') (sample_manager True [''home'']) ''.vimrc'' True
     (start tree_linked)
     = (Some SystemExit, \<lparr>world = tree_linked,
                          printed = [already_managed_msg ''/home/u/.vimrc''], vc_calls = []\<rparr>)"
proof -
  have h: "os_islink (fs_api ''/home/u'' ''box'') (home_path (fs_api ''/home/u'' ''box'') ''.vimrc'')
     (world (start tree_linked))"
    by (simp add: paths fs_api_simps fs_islink_def resolve_def components_def entry_def start_def
        tree_linked_def tree_home_def)
  from C9_add_symlink [OF h, of "sample_manager True [''home'']" True] show ?thesis
    by (simp add: paths start_def sample_manager_def)
qed

section \<open>Deleting tolerates missing files (C7)\<close>





section \<open>Tag resolution (C5)\<close>

lemma str_find_single:
  "str_find [c] s = (if c \<in> set s then Some (length (takeWhile (\<lambda>x. x \<noteq> c) s)) else None)"
  by (induction s) auto

lemma str_split_sep_single_hd:
  "\<exists>rest. str_split_sep [c] s = takeWhile (\<lambda>x. x \<noteq> c) s # rest"
proof (cases "c \<in> set s")
  case True
  then have f: "str_find [c] s = Some (length (takeWhile (\<lambda>x. x \<noteq> c) s))"
    by (simp only: str_find_single if_True)
  have "str_split_sep [c] s =
          take (length (takeWhile (\<lambda>x. x \<noteq> c) s)) s #
          str_split_sep [c] (drop (length (takeWhile (\<lambda>x. x \<noteq> c) s) + length [c]) s)"
    by (subst str_split_sep.simps) (simp only: f option.case list.distinct if_False)
  moreover have "take (length (takeWhile (\<lambda>x. x \<noteq> c) s)) s = takeWhile (\<lambda>x. x \<noteq> c) s"
    by (simp only: takeWhile_eq_take [symmetric])
  ultimately show ?thesis by (simp only: list.inject) blast
next
  case False
  then have f: "str_find [c] s = None" by (simp only: str_find_single if_False)
  from False have tw: "takeWhile (\<lambda>x. x \<noteq> c) s = s" by (auto simp: takeWhile_eq_all_conv)
  have "str_split_sep [c] s = [s]"
    by (subst str_split_sep.simps) (simp only: f option.case list.distinct if_False)
  then show ?thesis by (simp only: tw) blast
qed

lemma prefix_host_colon:
  assumes "c \<notin> set host"
  shows "prefix (host @ [c]) line \<longleftrightarrow> c \<in> set line \<and> takeWhile (\<lambda>x. x \<noteq> c) line = host"
proof
  assume "prefix (host @ [c]) line"
  then obtain r where r: "line = host @ c # r" by (auto simp: prefix_def)
  from assms have "\<forall>x\<in>set host. x \<noteq> c" by auto
  with r show "c \<in> set line \<and> takeWhile (\<lambda>x. x \<noteq> c) line = host"
    by simp
next
  assume h: "c \<in> set line \<and> takeWhile (\<lambda>x. x \<noteq> c) line = host"
  then have "dropWhile (\<lambda>x. x \<noteq> c) line \<noteq> []" by (simp add: dropWhile_eq_Nil_conv) 
  then obtain d r where dr: "dropWhile (\<lambda>x. x \<noteq> c) line = d # r"
    by (cases "dropWhile (\<lambda>x. x \<noteq> c) line") auto
  then have "d = c" using hd_dropWhile [of "\<lambda>x. x \<noteq> c" line] by simp
  with dr h have "line = host @ c # r"
    using takeWhile_dropWhile_id [of "\<lambda>x. x \<noteq> c" line] by simp
  then show "prefix (host @ [c]) line" by (simp add: prefix_def)
qed

lemma second_field:
  assumes "c \<notin> set host" and "prefix (host @ [c]) line"
  shows "\<exists>rest. drop 1 (str_split_sep [c] line) =
           takeWhile (\<lambda>x. x \<noteq> c) (drop (Suc (length host)) line) # rest"
proof -
  from assms(2) obtain r where r: "line = host @ c # r" by (auto simp: prefix_def)
  from assms(1) have "\<forall>x\<in>set host. x \<noteq> c" by auto
  with r have tw: "takeWhile (\<lambda>x. x \<noteq> c) line = host" by simp
  from r have "c \<in> set line" by simp
  then have f: "str_find [c] line = Some (length host)" by (simp only: str_find_single if_True tw)
  have "str_split_sep [c] line = take (length host) line # str_split_sep [c] (drop (length host + length [c]) line)"
    by (subst str_split_sep.simps) (simp only: f option.case list.distinct if_False)
  then have "drop 1 (str_split_sep [c] line) = str_split_sep [c] (drop (Suc (length host)) line)" by simp
  with str_split_sep_single_hd [of c "drop (Suc (length host)) line"] show ?thesis by auto
qed

lemma get_tags_scan_find:
  assumes "CHR '':'' \<notin> set host"
  shows "get_tags_scan verb host ls =
     (case find (\<lambda>l. CHR '':'' \<in> set l \<and> takeWhile (\<lambda>c. c \<noteq> CHR '':'') l = host) ls of
        None \<Rightarrow> (Inr [[]], [''Warning: No tags found for this machine!''])
      | Some l \<Rightarrow>
          (let field = takeWhile (\<lambda>c. c \<noteq> CHR '':'') (drop (Suc (length host)) l)
           in (Inr (str_split field),
               if verb then [''Found tags: '' @ str_join '', '' (str_split field)] else [])))"
proof (induction ls)
  case Nil
  show ?case by simp
next
  case (Cons l ls)
  show ?case
  proof (cases "prefix (host @ '':'') l")
    case True
    from second_field [OF assms, of l] True obtain rest where
      "drop 1 (str_split_sep '':'' l) = takeWhile (\<lambda>x. x \<noteq> CHR '':'') (drop (Suc (length host)) l) # rest"
      by auto
    with True prefix_host_colon [OF assms, of l] show ?thesis by (simp add: Let_def)
  next
    case False
    with Cons prefix_host_colon [OF assms, of l] show ?thesis by auto
  qed
qed

text \<open>
  C5, amended: for a host name without \<^verbatim>\<open>:\<close> and a readable mapping file, tag resolution
  scans the lines in file order and takes the first line that contains a \<^verbatim>\<open>:\<close> and whose
  text before the first \<^verbatim>\<open>:\<close> equals the host name exactly; it returns the
  whitespace-separated tokens of that line's text between its first \<^verbatim>\<open>:\<close> and its next
  \<^verbatim>\<open>:\<close> (the end of the line when there is none). If no line matches, it returns the
  singleton list of the empty string and prints a warning instead of failing.
\<close>

theorem C5_get_tags:
  assumes "CHR '':'' \<notin> set (host_name os)" and "os_read os cfg (world s) = Inr content"
  shows "get_tags os cfg verb s =
     (case find (\<lambda>l. CHR '':'' \<in> set l \<and> takeWhile (\<lambda>c. c \<noteq> CHR '':'') l = host_name os)
             (readlines content) of
        None \<Rightarrow> (Inr [[]], s\<lparr>printed := printed s @ [''Warning: No tags found for this machine!'']\<rparr>)
      | Some l \<Rightarrow>
          (let field = takeWhile (\<lambda>c. c \<noteq> CHR '':'') (drop (Suc (length (host_name os))) l)
           in (Inr (str_split field),
               if verb then s\<lparr>printed := printed s @ [''Found tags: '' @ str_join '', '' (str_split field)]\<rparr>
               else s)))"
  using assms(2)
  by (simp add: get_tags_def get_tags_scan_find [OF assms(1)] print_all_def Let_def split: option.splits)

text \<open>
  C5, as stated, fails at two inputs. A mapping line with a second \<^verbatim>\<open>:\<close> loses the tags from
  that \<^verbatim>\<open>:\<close> on: for \<^verbatim>\<open>box:a b:c d\<close> the result is not the token list of \<^verbatim>\<open>a b:c d\<close>. A host
  name with a \<^verbatim>\<open>:\<close> matches a line by prefix although no line has it as its text before the
  first \<^verbatim>\<open>:\<close>, so the result is not the sentinel.
\<close>

theorem C5_get_tags_counterexample:
  "fst (get_tags_scan False ''box'' (readlines ''box:a b:c d\<newline>'')) \<noteq> Inr (str_split ''a b:c d\<newline>'') \<and>
   fst (get_tags_scan False ''a:b'' (readlines ''a:b:x\<newline>'')) \<noteq> Inr [[]]"
  by code_simp

theorem C5_get_tags_witness:
  "get_tags (fs_api ''/home/u'' ''box'') ''/repo/.dotmgr'' False
     (start (tree_config ''laptop:mobile\<newline>box:home  desk\<newline>box:late\<newline>''))
   = (Inr [''home'', ''desk''],
      start (tree_config ''laptop:mobile\<newline>box:home  desk\<newline>box:late\<newline>'')) \<and>
   get_tags (fs_api ''/home/u'' ''box'') ''/repo/.dotmgr'' False
     (start (tree_config ''laptop:mobile\<newline>''))
   = (Inr [[]],
      \<lparr>world = tree_config ''laptop:mobile\<newline>'',
       printed = [''Warning: No tags found for this machine!''], vc_calls = []\<rparr>)"
proof -
  have h: "CHR '':'' \<notin> set (host_name (fs_api ''/home/u'' ''box''))" by (simp add: fs_api_simps)
  have r: "os_read (fs_api ''/home/u'' ''box'') ''/repo/.dotmgr'' (world (start (tree_config mapping)))
            = Inr mapping" for mapping
    by (simp add: fs_api_simps fs_read_def resolve_def components_def entry_def start_def
        tree_config_def tree_home_def)
  have n: "host_name (fs_api ''/home/u'' ''box'') = ''box''" by (simp add: fs_api_simps)
  have l1: "readlines ''laptop:mobile\<newline>box:home  desk\<newline>box:late\<newline>''
              = [''laptop:mobile\<newline>'', ''box:home  desk\<newline>'', ''box:late\<newline>'']" by code_simp
  have l2: "readlines ''laptop:mobile\<newline>'' = [''laptop:mobile\<newline>'']" by code_simp
  have t: "str_split ''home  desk\<newline>'' = [''home'', ''desk'']" by code_simp
  from C5_get_tags [OF h r, of False "''laptop:mobile\<newline>box:home  desk\<newline>box:late\<newline>''"]
  have 1: "get_tags (fs_api ''/home/u'' ''box'') ''/repo/.dotmgr'' False
     (start (tree_config ''laptop:mobile\<newline>box:home  desk\<newline>box:late\<newline>''))
   = (Inr [''home'', ''desk''],
      start (tree_config ''laptop:mobile\<newline>box:home  desk\<newline>box:late\<newline>''))"
    by (simp add: n l1 t)
  from C5_get_tags [OF h r, of False "''laptop:mobile\<newline>''"]
  have 2: "get_tags (fs_api ''/home/u'' ''box'') ''/repo/.dotmgr'' False
     (start (tree_config ''laptop:mobile\<newline>''))
   = (Inr [[]],
      \<lparr>world = tree_config ''laptop:mobile\<newline>'',
       printed = [''Warning: No tags found for this machine!''], vc_calls = []\<rparr>)"
    by (simp add: n l2 start_def)
  from 1 2 show ?thesis by simp
qed

section \<open>The round trip through the stage (C2)\<close>

lemma filter_loop_writes: "fst (filter_loop step flag ls) = concat (loop_writes step flag ls)"
proof (induction ls arbitrary: flag)
  case Nil
  show ?case by simp
next
  case (Cons l ls)
  obtain f' w ms where st: "step flag l = (f', w, ms)" by (cases "step flag l") auto
  obtain ws ms' where lp: "filter_loop step f' ls = (ws, ms')" by (cases "filter_loop step f' ls") auto
  from Cons [of f'] lp have "ws = concat (loop_writes step f' ls)" by simp
  with st lp show ?case by simp
qed

lemma specialize_step_write:
  "fst (snd (specialize_step verb ts cseq f l)) = (if f \<and> \<not> directive cseq l then cseq @ l else l)"
  by (auto simp: specialize_step_def directive_def Let_def)

lemma generalize_step_write:
  "fst (snd (generalize_step verb ts cseq f l)) =
     (if f \<and> \<not> directive cseq l then strip_line cseq l else l)"
  by (auto simp: generalize_step_def directive_def Let_def)

lemma generalize_step_flag:
  "fst (generalize_step verb ts cseq f l) = fst (specialize_step verb ts cseq f l)"
  by (auto simp: generalize_step_def specialize_step_def Let_def)

lemma specialize_step_flag_plain:
  "\<not> directive cseq l \<Longrightarrow> fst (specialize_step verb ts cseq f l) = f"
  by (auto simp: specialize_step_def directive_def Let_def)

lemma specialize_step_flag_directive:
  "directive cseq l \<Longrightarrow> fst (specialize_step verb ts cseq f l) = fst (specialize_step verb ts cseq f' l)"
  by (auto simp: specialize_step_def directive_def Let_def)

lemma round_trip_lines:
  assumes ne: "cseq \<noteq> []" and inv: "fG \<longrightarrow> fS"
  shows "loop_writes (specialize_step verb ts cseq) fG
           (loop_writes (generalize_step verb ts cseq) fG
              (loop_writes (specialize_step verb ts cseq) fS ls))
         = loop_writes (specialize_step verb ts cseq) fS ls \<and>
         list_all2 (\<lambda>l g. g = l \<or> g = cseq @ l) ls
           (loop_writes (generalize_step verb ts cseq) fG
              (loop_writes (specialize_step verb ts cseq) fS ls))"
  using inv
proof (induction ls arbitrary: fS fG)
  case Nil
  show ?case by simp
next
  case (Cons l ls)
  let ?S = "specialize_step verb ts cseq" and ?G = "generalize_step verb ts cseq"
  show ?case
  proof (cases "directive cseq l")
    case True
    have flags: "fst (?S fG l) = fst (?S fS l)" by (rule specialize_step_flag_directive [OF True])
    have "fst (?S fS l) \<longrightarrow> fst (?S fS l)" by simp
    from Cons.IH [OF this] True flags show ?thesis
      by (simp add: specialize_step_write generalize_step_write generalize_step_flag)
  next
    case plain: False
    show ?thesis
    proof (cases fS)
      case False
      with Cons.prems have fG: "\<not> fG" by simp
      have "fG \<longrightarrow> fS" using fG by simp
      from Cons.IH [OF this] plain False fG show ?thesis
        by (simp add: specialize_step_write generalize_step_write generalize_step_flag
            specialize_step_flag_plain)
    next
      case True
      show ?thesis
      proof (cases "directive cseq (cseq @ l)")
        case d: True
        have "fst (?S fG (cseq @ l)) \<longrightarrow> fS" using True by simp
        from Cons.IH [OF this] plain True d show ?thesis
          by (simp add: specialize_step_write generalize_step_write generalize_step_flag
              specialize_step_flag_plain)
      next
        case nd: False
        have "fG \<longrightarrow> fS" using True by simp
        from Cons.IH [OF this] plain True nd show ?thesis
          by (cases fG)
             (simp_all add: specialize_step_write generalize_step_write generalize_step_flag
                specialize_step_flag_plain strip_line_prefixed [OF ne])
      qed
    qed
  qed
qed


lemma wf_lines_Cons:
  "wf_lines (l # ls) \<longleftrightarrow> line_ok l \<and> (ls \<noteq> [] \<longrightarrow> last l = CHR 0x0A) \<and> wf_lines ls"
  by (cases ls) auto

lemma universal_newlines_no_CR: "CHR 0x0D \<notin> set (universal_newlines t)"
  by (induction t rule: universal_newlines.induct) auto

lemma universal_newlines_id: "CHR 0x0D \<notin> set t \<Longrightarrow> universal_newlines t = t"
  by (induction t rule: universal_newlines.induct) auto

lemma keepends_wf:
  "CHR 0x0D \<notin> set acc \<Longrightarrow> CHR 0x0D \<notin> set t \<Longrightarrow> CHR 0x0A \<notin> set acc \<Longrightarrow> wf_lines (keepends acc t)"
proof (induction t arbitrary: acc)
  case Nil
  then show ?case by (auto simp: line_ok_def dest: in_set_butlastD)
next
  case (Cons c cs)
  show ?case
  proof (cases "c = CHR 0x0A")
    case True
    have "wf_lines (keepends [] cs)" using Cons.prems by (intro Cons.IH) auto
    with True Cons.prems show ?thesis by (simp add: wf_lines_Cons line_ok_def)
  next
    case False
    have "wf_lines (keepends (acc @ [c]) cs)" using Cons.prems False by (intro Cons.IH) auto
    with False show ?thesis by simp
  qed
qed

lemma readlines_wf: "wf_lines (readlines t)"
  unfolding readlines_def by (rule keepends_wf) (simp_all add: universal_newlines_no_CR)

lemma keepends_append: "CHR 0x0A \<notin> set a \<Longrightarrow> keepends acc (a @ t) = keepends (acc @ a) t"
  by (induction a arbitrary: acc) auto

lemma keepends_line:
  assumes "line_ok l"
  shows "keepends [] (l @ t) = (if last l = CHR 0x0A then l # keepends [] t else keepends l t)"
proof -
  from assms have ne: "l \<noteq> []" and nb: "CHR 0x0A \<notin> set (butlast l)" by (auto simp: line_ok_def)
  from ne have l: "l = butlast l @ [last l]" by simp
  have "keepends [] (l @ t) = keepends [] (butlast l @ last l # t)"
    by (subst l) simp
  also have "\<dots> = keepends (butlast l) (last l # t)" using keepends_append [OF nb, of "[]"] by simp
  also have "\<dots> = (if last l = CHR 0x0A then l # keepends [] t else keepends l t)"
    using l by auto
  finally show ?thesis .
qed

lemma keepends_concat: "wf_lines ls \<Longrightarrow> keepends [] (concat ls) = ls"
proof (induction ls rule: wf_lines.induct)
  case 1
  show ?case by simp
next
  case (2 l)
  then have ok: "line_ok l" by simp
  then have "l \<noteq> []" by (simp add: line_ok_def)
  with keepends_line [OF ok, of "[]"] show ?case by simp
next
  case (3 l l' ls)
  then have ok: "line_ok l" and lf: "last l = CHR 0x0A" and rest: "wf_lines (l' # ls)" by simp_all
  from keepends_line [OF ok, of "concat (l' # ls)"] lf "3.IH" [OF rest] show ?case by simp
qed

lemma wf_lines_no_CR: "wf_lines ls \<Longrightarrow> CHR 0x0D \<notin> set (concat ls)"
  by (induction ls rule: wf_lines.induct) (auto simp: line_ok_def)

lemma readlines_concat: "wf_lines ls \<Longrightarrow> readlines (concat ls) = ls"
  using wf_lines_no_CR [of ls] by (simp add: readlines_def universal_newlines_id keepends_concat)

lemma line_ok_prefixed:
  assumes "line_ok l" and "CHR 0x0D \<notin> set c" and "CHR 0x0A \<notin> set c"
  shows "line_ok (c @ l) \<and> last (c @ l) = last l"
  using assms by (auto simp: line_ok_def butlast_append)

lemma wf_lines_related:
  assumes "list_all2 (\<lambda>l g. g = l \<or> g = c @ l) ls gs" and "wf_lines ls"
    and "CHR 0x0D \<notin> set c" and "CHR 0x0A \<notin> set c"
  shows "wf_lines gs"
  using assms(1,2)
proof (induction rule: list_all2_induct)
  case Nil
  show ?case by simp
next
  case (Cons l ls g gs)
  from Cons.prems have ok: "line_ok l" and lf: "ls \<noteq> [] \<longrightarrow> last l = CHR 0x0A" and rest: "wf_lines ls"
    by (simp_all add: wf_lines_Cons)
  from Cons.hyps(1) line_ok_prefixed [OF ok assms(3,4)] ok
  have "line_ok g \<and> last g = last l" by auto
  moreover from Cons.hyps(2) have "gs \<noteq> [] \<longleftrightarrow> ls \<noteq> []" by (auto dest: list_all2_lengthD)
  ultimately show ?case using lf Cons.IH [OF rest] by (simp add: wf_lines_Cons)
qed

lemma specialize_writes_related:
  "list_all2 (\<lambda>l g. g = l \<or> g = cseq @ l) ls (loop_writes (specialize_step verb ts cseq) f ls)"
  by (induction ls arbitrary: f) (simp_all add: specialize_step_write)

lemma loop_writes_first:
  "loop_writes (specialize_step verb ts cseq) False (l # ls)
     = l # loop_writes (specialize_step verb ts cseq) (fst (specialize_step verb ts cseq False l)) ls"
  "loop_writes (generalize_step verb ts cseq) False (l # ls)
     = l # loop_writes (generalize_step verb ts cseq) (fst (generalize_step verb ts cseq False l)) ls"
  by (simp_all add: specialize_step_write generalize_step_write)

lemma filter_and_write_fst:
  "fst (filter_and_write step verb (l # ls)) =
     (case fst (identify_comment_sequence verb l) of
        Inl e \<Rightarrow> Inl e
      | Inr cseq \<Rightarrow> Inr (concat (loop_writes (step cseq) False (l # ls))))"
proof (cases "identify_comment_sequence verb l")
  case (Pair r msgs)
  show ?thesis
  proof (cases r)
    case (Inl e)
    with Pair show ?thesis by (simp add: filter_and_write_def)
  next
    case (Inr cseq)
    obtain w ms where lp: "filter_loop (step cseq) False (l # ls) = (w, ms)"
      by (cases "filter_loop (step cseq) False (l # ls)") auto
    from filter_loop_writes [of "step cseq" False "l # ls"] lp
    have "w = concat (loop_writes (step cseq) False (l # ls))" by simp
    with Pair Inr lp show ?thesis by (simp add: filter_and_write_def del: filter_loop.simps loop_writes.simps)
  qed
qed

text \<open>
  C2: for every file content and every fixed list of host tags, whenever specializing the
  content writes a stage text, generalizing that stage text writes a repository text, and
  specializing this repository text writes the same stage text again. No condition on the
  directives is needed, so the statement covers the contents with balanced directives.
\<close>

theorem C2_round_trip:
  assumes "specialize_text verb ts content = Written staged"
  shows "\<exists>generic. generalize_text verb ts staged = Written generic \<and>
                   specialize_text verb ts generic = Written staged"
proof -
  let ?S = "specialize_step verb ts" and ?G = "generalize_step verb ts"
  from assms obtain l ls where lines: "readlines content = l # ls"
    by (cases "readlines content") (auto simp: specialize_text_def)
  from assms lines obtain cseq where
    cseq: "fst (identify_comment_sequence verb l) = Inr cseq"
    and staged: "staged = concat (loop_writes (?S cseq) False (l # ls))"
    by (auto simp: specialize_text_def specialize_filter_def filter_and_write_fst
        simp del: loop_writes.simps split: sum.splits)
  from identify_comment_sequence_nonempty [OF cseq]
  have ne: "cseq \<noteq> []" and nospace: "\<forall>c\<in>set cseq. \<not> isspace c" by simp_all
  from nospace have nocr: "CHR 0x0D \<notin> set cseq" and nolf: "CHR 0x0A \<notin> set cseq"
    by (auto simp: isspace_def)
  have wf: "wf_lines (l # ls)" using readlines_wf [of content] lines by simp
  define xs where "xs = loop_writes (?S cseq) False (l # ls)"
  define gs where "gs = loop_writes (?G cseq) False xs"
  have wfx: "wf_lines xs"
    unfolding xs_def by (rule wf_lines_related [OF specialize_writes_related wf nocr nolf])
  have rt: "loop_writes (?S cseq) False gs = xs \<and> list_all2 (\<lambda>l g. g = l \<or> g = cseq @ l) (l # ls) gs"
    unfolding gs_def xs_def by (rule round_trip_lines [OF ne]) simp
  have wfg: "wf_lines gs"
    by (rule wf_lines_related [OF conjunct2 [OF rt] wf nocr nolf])
  have "xs = l # loop_writes (?S cseq) (fst (?S cseq False l)) ls"
    unfolding xs_def by (rule loop_writes_first(1))
  then obtain xs' where xs: "xs = l # xs'" by blast
  have "gs = l # loop_writes (?G cseq) (fst (?G cseq False l)) xs'"
    unfolding gs_def xs by (rule loop_writes_first(2))
  then obtain gs' where gs: "gs = l # gs'" by blast
  have st: "staged = concat xs" by (simp only: staged xs_def)
  have read_staged: "readlines staged = xs"
    unfolding st by (rule readlines_concat [OF wfx])
  have "fst (filter_and_write ?G verb (l # xs')) = Inr (concat (loop_writes (?G cseq) False (l # xs')))"
    by (simp only: filter_and_write_fst cseq sum.case)
  then have genf: "fst (generalize_filter verb ts xs) = Inr (concat gs)"
    by (simp only: generalize_filter_def gs_def xs)
  have xne: "xs \<noteq> []" using xs by simp
  have gen: "generalize_text verb ts staged = Written (concat gs)"
    unfolding generalize_text_def Let_def read_staged using genf xne by simp
  have read_generic: "readlines (concat gs) = gs" by (rule readlines_concat [OF wfg])
  have "fst (filter_and_write ?S verb (l # gs')) = Inr (concat (loop_writes (?S cseq) False (l # gs')))"
    by (simp only: filter_and_write_fst cseq sum.case)
  with rt have specf: "fst (specialize_filter verb ts gs) = Inr (concat xs)"
    by (simp only: specialize_filter_def gs)
  have gne: "gs \<noteq> []" using gs by simp
  have spec: "specialize_text verb ts (concat gs) = Written staged"
    unfolding specialize_text_def Let_def read_generic using specf gne st by simp
  from gen spec show ?thesis by blast
qed
theorem C2_round_trip_witness:
  "specialize_text False [''home'']
      ''# settings\<newline>##only work\<newline>#end of the proxy part\<newline>export x\<newline>##end\<newline>last''
     = Written ''# settings\<newline>##only work\<newline>##end of the proxy part\<newline>#export x\<newline>##end\<newline>last'' \<and>
   (\<exists>generic.
      generalize_text False [''home'']
        ''# settings\<newline>##only work\<newline>##end of the proxy part\<newline>#export x\<newline>##end\<newline>last'' = Written generic \<and>
      specialize_text False [''home''] generic
        = Written ''# settings\<newline>##only work\<newline>##end of the proxy part\<newline>#export x\<newline>##end\<newline>last'')"
proof -
  have h: "specialize_text False [''home'']
      ''# settings\<newline>##only work\<newline>#end of the proxy part\<newline>export x\<newline>##end\<newline>last''
     = Written ''# settings\<newline>##only work\<newline>##end of the proxy part\<newline>#export x\<newline>##end\<newline>last''"
    by code_simp
  from C2_round_trip [OF h] h show ?thesis by blast
qed

section \<open>The filters inside the operations\<close>

lemma specialize_runs_filter:
  assumes "os_read os (repo_path m p) (world s) = Inr content"
    and "specialize_text (verbose m) (tags m) content = Written staged"
    and "os_makedirs os (stage_path m (dirname p)) (world s) = Inr w1"
    and "os_write os (stage_path m p) staged w1 = Inr w2"
  shows "fst (specialize os m p False s) = None \<and> world (snd (specialize os m p False s)) = w2"
proof -
  from assms(2) have ne: "readlines content \<noteq> []"
    by (auto simp: specialize_text_def Let_def split: if_splits)
  obtain r msgs where f: "specialize_filter (verbose m) (tags m) (readlines content) = (r, msgs)"
    by (cases "specialize_filter (verbose m) (tags m) (readlines content)") auto
  with assms(2) ne have r: "r = Inr staged"
    by (auto simp: specialize_text_def Let_def split: sum.splits)
  show ?thesis
    using assms(1,3,4) ne f r
    by (simp add: specialize_def Let_def on_world_def print_def print_all_def)
qed

lemma generalize_runs_filter:
  assumes "os_read os (stage_path m p) (world s) = Inr content"
    and "generalize_text (verbose m) (tags m) content = Written generic"
    and "os_makedirs os (repo_path m (dirname p)) (world s) = Inr w1"
    and "os_write os (repo_path m p) generic w1 = Inr w2"
  shows "fst (generalize os m p False msg s) = None \<and> world (snd (generalize os m p False msg s)) = w2"
proof -
  from assms(2) have ne: "readlines content \<noteq> []"
    by (auto simp: generalize_text_def Let_def split: if_splits)
  obtain r msgs where f: "generalize_filter (verbose m) (tags m) (readlines content) = (r, msgs)"
    by (cases "generalize_filter (verbose m) (tags m) (readlines content)") auto
  with assms(2) ne have r: "r = Inr generic"
    by (auto simp: generalize_text_def Let_def split: sum.splits)
  show ?thesis
    using assms(1,3,4) ne f r
    by (simp add: generalize_def Let_def on_world_def print_def print_all_def)
qed

section \<open>A block that is commented out and restored (C3)\<close>

text \<open>
  The first half of C3 holds for every content: after an \<^verbatim>\<open>only\<close> directive line none of
  whose tags is a host tag, the directive line is written verbatim and every line of the
  block gets one comment sequence in front. The second half holds when no line of the
  block, once it has the comment sequence in front, carries a directive token: then the
  generalize filter gives the block back.
\<close>

lemma only_block_commented:
  assumes "has_only cseq d" and "\<not> any_tag_in ts (section_tags_of d)"
    and "\<forall>l\<in>set block. \<not> directive cseq l"
  shows "loop_writes (specialize_step verb ts cseq) flag (d # block @ rest) =
           d # map ((@) cseq) block @ loop_writes (specialize_step verb ts cseq) True rest"
proof -
  have blk: "loop_writes (specialize_step verb ts cseq) True (block @ rest) =
           map ((@) cseq) block @ loop_writes (specialize_step verb ts cseq) True rest"
    using assms(3)
    by (induction block) (simp_all add: specialize_step_write specialize_step_flag_plain)
  from assms(1,2) have "specialize_step verb ts cseq flag d = (True, d, if verb then [found_only_msg d] else [])"
    by (simp add: specialize_step_def)
  with blk show ?thesis by simp
qed

lemma only_block_restored:
  assumes "cseq \<noteq> []" and "has_only cseq d" and "\<not> any_tag_in ts (section_tags_of d)"
    and "\<forall>l\<in>set block. \<not> directive cseq (cseq @ l)"
  shows "loop_writes (generalize_step verb ts cseq) flag (d # map ((@) cseq) block @ rest) =
           d # block @ loop_writes (generalize_step verb ts cseq) True rest"
proof -
  have blk: "loop_writes (generalize_step verb ts cseq) True (map ((@) cseq) block @ rest) =
           block @ loop_writes (generalize_step verb ts cseq) True rest"
    using assms(4)
    by (induction block)
       (simp_all add: generalize_step_write generalize_step_flag specialize_step_flag_plain
          strip_line_prefixed [OF assms(1)])
  from assms(2,3) have "generalize_step verb ts cseq flag d = (True, d, if verb then [found_only_msg d] else [])"
    by (simp add: generalize_step_def)
  with blk show ?thesis by simp
qed

text \<open>
  C3 fails on the code where a commented-out line of the block reads as a directive. With
  the comment sequence \<^verbatim>\<open>#\<close>, the block line \<^verbatim>\<open>#note: proxy\<close> is specialized to
  \<^verbatim>\<open>##note: proxy\<close>, which contains \<^verbatim>\<open>##not\<close>: the generalize filter takes it for a \<^verbatim>\<open>not\<close>
  directive whose tags do not match, leaves strip mode, and writes the stage text back
  as it is. The block is not restored.
\<close>

theorem C3_block_not_restored:
  "specialize_text False [''home''] note_repo_text = Written note_stage_text \<and>
   generalize_text False [''home''] note_stage_text = Written note_stage_text \<and>
   note_stage_text \<noteq> note_repo_text"
  unfolding note_repo_text_def note_stage_text_def by code_simp

end
